theory Spec2Isabelle
  imports Main "HOL-Library.Sublist"
begin

section \<open>The service bus of the Chopper Coffee SOA demo\<close>

text \<open>
  The development embeds the class \<^verbatim>\<open>ServiceBus\<close> of \<^verbatim>\<open>src/soa.js\<close> (its constructor,
  \<^verbatim>\<open>subscribe\<close>, \<^verbatim>\<open>publish\<close> and \<^verbatim>\<open>getLog\<close>) together with the helper \<^verbatim>\<open>notifyBusLog\<close>
  that \<^verbatim>\<open>publish\<close> calls.

  JavaScript runs the bus on one thread. The first model takes a call of the asynchronous
  \<^verbatim>\<open>publish\<close> as one run to completion: the caller awaits it, every handler awaits the
  publishes it issues, and nothing else touches the bus in the meantime, which is how every call
  of the repository uses it (\<^verbatim>\<open>await bus.publish(...)\<close>). A second model, the event loop
  with its timer queue, covers handlers that publish without awaiting; for awaiting handlers
  the two agree (\<open>publish_on_event_loop\<close>).
\<close>

subsection \<open>Values, errors and promise outcomes\<close>

type_synonym topic = string

text \<open>
  A payload is any JavaScript value. The bus distinguishes only whether a property can be read
  from it: reading a property of \<^verbatim>\<open>undefined\<close> or \<^verbatim>\<open>null\<close> throws a TypeError, every other
  value (\<open>Obj\<close>, with its opaque contents) allows it.
\<close>

datatype 'a jsval = Undefined | Null | Obj 'a

datatype error = TypeError | Thrown string

text \<open>How an awaited promise settles.\<close>

datatype outcome = Fulfilled | Rejected error

subsection \<open>Log entries\<close>

text \<open>
  The object literal \<^verbatim>\<open>{ event, payload, timestamp: Date.now() }\<close> built by \<^verbatim>\<open>publish\<close>.
\<close>

record 'a entry =
  event :: topic
  payload :: "'a jsval"
  timestamp :: nat

datatype 'a field = FString string | FValue "'a jsval" | FNumber nat

text \<open>
  Reading the own property \<open>k\<close> of an entry, \<^verbatim>\<open>entry[k]\<close>: the literal has exactly three
  keys, and any other key is absent (\<^verbatim>\<open>undefined\<close>).
\<close>

definition entry_get :: "'a entry \<Rightarrow> string \<Rightarrow> 'a field option" where
  "entry_get e k =
     (if k = ''event'' then Some (FString (event e))
      else if k = ''payload'' then Some (FValue (payload e))
      else if k = ''timestamp'' then Some (FNumber (timestamp e))
      else None)"

subsection \<open>Handlers\<close>

text \<open>
  Every handler of the repository is an \<^verbatim>\<open>async\<close> function that first updates the private
  state of its service synchronously and then awaits \<^verbatim>\<open>bus.publish(...)\<close>; none catches an
  exception. A handler is modelled accordingly: given the services' state and the payload it
  returns the updated services' state and the statements it goes on to run, each an awaited
  publish or a \<^verbatim>\<open>throw\<close>.
\<close>

datatype 'a stmt = AwaitPublish topic "'a jsval" | Throw error

type_synonym ('a, 's) handler = "'s \<Rightarrow> 'a jsval \<Rightarrow> 's \<times> 'a stmt list"

subsection \<open>The bus and its environment\<close>

text \<open>
  \<open>subscribers\<close> holds the own properties of the object \<^verbatim>\<open>this._subscribers\<close>, \<open>log\<close> is the
  array \<^verbatim>\<open>this._log\<close>.
\<close>

record ('a, 's) ServiceBus =
  subscribers :: "topic \<rightharpoonup> ('a, 's) handler list"
  log :: "'a entry list"

text \<open>
  What \<^verbatim>\<open>publish\<close> reads and writes beyond the bus: the children of the page element
  \<^verbatim>\<open>#soa-bus-log\<close> (\<open>None\<close> when the page has no such element; newest child first), the
  clock behind \<^verbatim>\<open>Date.now()\<close> (its \<open>k\<close>-th reading is \<open>clock k\<close>, and \<open>reads\<close> counts the
  readings taken), and the private state of the services.
\<close>

record ('a, 's) world = "('a, 's) ServiceBus" +
  busLogEl :: "'a entry list option"
  clock :: "nat \<Rightarrow> nat"
  reads :: nat
  services :: 's

text \<open>The constructor: \<^verbatim>\<open>this._subscribers = {}; this._log = [];\<close>\<close>

definition new_bus :: "'a entry list option \<Rightarrow> (nat \<Rightarrow> nat) \<Rightarrow> 's \<Rightarrow> ('a, 's) world" where
  "new_bus el clk s =
     \<lparr>subscribers = Map.empty, log = [], busLogEl = el, clock = clk, reads = 0, services = s\<rparr>"

definition getLog :: "('a, 's) world \<Rightarrow> 'a entry list" where
  "getLog w = log w"

subsection \<open>Property reads on \<^verbatim>\<open>this._subscribers\<close>\<close>

text \<open>
  \<^verbatim>\<open>this._subscribers\<close> is an object literal, so a read \<^verbatim>\<open>this._subscribers[event]\<close> that
  finds no own property continues in \<^verbatim>\<open>Object.prototype\<close>. These are the property names
  every object inherits from there; each holds a function, or the prototype object itself for
  \<^verbatim>\<open>__proto__\<close>: a truthy value that is neither an array nor iterable.
\<close>

definition Object_prototype :: "string list" where
  "Object_prototype =
     [''constructor'', ''hasOwnProperty'', ''isPrototypeOf'', ''propertyIsEnumerable'',
      ''toLocaleString'', ''toString'', ''valueOf'', ''__proto__'',
      ''__defineGetter__'', ''__defineSetter__'', ''__lookupGetter__'', ''__lookupSetter__'']"

datatype ('a, 's) slot = Array "('a, 's) handler list" | Builtin

definition read_subscribers ::
  "(topic \<rightharpoonup> ('a, 's) handler list) \<Rightarrow> topic \<Rightarrow> ('a, 's) slot option" where
  "read_subscribers subs ev =
     (case subs ev of
        Some hs \<Rightarrow> Some (Array hs)
      | None \<Rightarrow> if ev \<in> set Object_prototype then Some Builtin else None)"

subsection \<open>subscribe\<close>

text \<open>
  \<^verbatim>\<open>if (!this._subscribers[event]) this._subscribers[event] = [];\<close>
  \<^verbatim>\<open>this._subscribers[event].push(handler);\<close>

  An array is truthy even when empty, and so is an inherited value; calling \<^verbatim>\<open>push\<close> on an
  inherited value throws a TypeError before anything was written. The method has no
  \<^verbatim>\<open>return\<close>, so a call that does not throw evaluates to \<^verbatim>\<open>undefined\<close>.
\<close>

definition subscribe ::
  "('a, 's) world \<Rightarrow> topic \<Rightarrow> ('a, 's) handler \<Rightarrow> error + (unit jsval \<times> ('a, 's) world)" where
  "subscribe w ev handler =
     (let subs1 = (if read_subscribers (subscribers w) ev = None
                   then (subscribers w)(ev \<mapsto> []) else subscribers w)
      in case read_subscribers subs1 ev of
           Some (Array hs) \<Rightarrow> Inr (Undefined, w\<lparr>subscribers := subs1(ev \<mapsto> hs @ [handler])\<rparr>)
         | Some Builtin \<Rightarrow> Inl TypeError
         | None \<Rightarrow> Inl TypeError)"

subsection \<open>notifyBusLog\<close>

text \<open>
  \<^verbatim>\<open>if (!logEl) return;\<close> leaves the page alone when it has no log element. Otherwise the
  function reads \<^verbatim>\<open>entry.payload.service\<close>, which throws a TypeError for a payload that is
  \<^verbatim>\<open>undefined\<close> or \<^verbatim>\<open>null\<close>, before the page is changed; for any other payload the new item is
  prepended and the element is cut back to its 20 newest children.
\<close>

definition notifyBusLog :: "'a entry list option \<Rightarrow> 'a entry \<Rightarrow> error + 'a entry list option" where
  "notifyBusLog logEl e =
     (case logEl of
        None \<Rightarrow> Inr None
      | Some items \<Rightarrow>
          (case payload e of
             Undefined \<Rightarrow> Inl TypeError
           | Null \<Rightarrow> Inl TypeError
           | Obj _ \<Rightarrow> Inr (Some (take 20 (e # items)))))"

subsection \<open>publish\<close>

text \<open>
  What an observer of a run can see, in the order it happens: an entry is pushed onto the log;
  a handler is called; the promise of a handler settles. A dispatch round is named by the
  index its entry has in the log, a handler by its index in the round's handler list.
  \<open>Invoked r i p n\<close> records that handler \<open>i\<close> of round \<open>r\<close> was called with payload \<open>p\<close> when
  the log held \<open>n\<close> entries.
\<close>

datatype 'a obs =
    Appended "'a entry"
  | Invoked nat nat "'a jsval" nat
  | Settled nat nat outcome

text \<open>
  \<open>publish\<close> is the method, \<open>dispatch\<close> its \<^verbatim>\<open>for (const handler of handlers)\<close> loop from
  handler index \<open>i\<close> on, and \<open>run_body\<close> runs the statements of one handler. A handler may
  publish to a topic whose handlers publish back, so a run need not end: the first argument
  bounds the nesting depth of publishes, and \<open>None\<close> says the bound was reached.
  \<^verbatim>\<open>await delay(400)\<close> always resolves and changes nothing on the bus; the time it takes
  shows only in later readings of the clock.
\<close>

function
  publish :: "nat \<Rightarrow> ('a, 's) world \<Rightarrow> topic \<Rightarrow> 'a jsval
     \<Rightarrow> (outcome \<times> ('a, 's) world \<times> 'a obs list) option"
and
  dispatch :: "nat \<Rightarrow> ('a, 's) world \<Rightarrow> nat \<Rightarrow> nat \<Rightarrow> ('a, 's) handler list \<Rightarrow> 'a jsval
     \<Rightarrow> (outcome \<times> ('a, 's) world \<times> 'a obs list) option"
and
  run_body :: "nat \<Rightarrow> ('a, 's) world \<Rightarrow> 'a stmt list
     \<Rightarrow> (outcome \<times> ('a, 's) world \<times> 'a obs list) option"
where
  "publish 0 w ev p = None"
| "publish (Suc n) w ev p =
     (let e = \<lparr>event = ev, payload = p, timestamp = clock w (reads w)\<rparr>;
          w1 = w\<lparr>log := log w @ [e], reads := Suc (reads w)\<rparr>
      in case notifyBusLog (busLogEl w1) e of
           Inl err \<Rightarrow> Some (Rejected err, w1, [Appended e])
         | Inr el \<Rightarrow>
             (let w2 = w1\<lparr>busLogEl := el\<rparr>
              in case read_subscribers (subscribers w2) ev of
                   None \<Rightarrow> Some (Fulfilled, w2, [Appended e])
                 | Some Builtin \<Rightarrow> Some (Rejected TypeError, w2, [Appended e])
                 | Some (Array hs) \<Rightarrow>
                     (case dispatch n w2 (length (log w)) 0 hs p of
                        None \<Rightarrow> None
                      | Some (out, w3, tr) \<Rightarrow> Some (out, w3, Appended e # tr))))"
| "dispatch n w r i [] p = Some (Fulfilled, w, [])"
| "dispatch n w r i (h # hs) p =
     (let (s, body) = h (services w) p
      in case run_body n (w\<lparr>services := s\<rparr>) body of
           None \<Rightarrow> None
         | Some (Rejected err, w1, tr) \<Rightarrow>
             Some (Rejected err, w1,
                   Invoked r i p (length (log w)) # tr @ [Settled r i (Rejected err)])
         | Some (Fulfilled, w1, tr) \<Rightarrow>
             (case dispatch n w1 r (Suc i) hs p of
                None \<Rightarrow> None
              | Some (out, w2, tr2) \<Rightarrow>
                  Some (out, w2,
                        Invoked r i p (length (log w)) # tr @ Settled r i Fulfilled # tr2)))"
| "run_body n w [] = Some (Fulfilled, w, [])"
| "run_body n w (Throw err # ss) = Some (Rejected err, w, [])"
| "run_body n w (AwaitPublish ev p # ss) =
     (case publish n w ev p of
        None \<Rightarrow> None
      | Some (Rejected err, w1, tr) \<Rightarrow> Some (Rejected err, w1, tr)
      | Some (Fulfilled, w1, tr) \<Rightarrow>
          (case run_body n w1 ss of
             None \<Rightarrow> None
           | Some (out, w2, tr2) \<Rightarrow> Some (out, w2, tr @ tr2)))"
  by pat_completeness auto
termination
  by (relation "measures
        [\<lambda>x. case x of
                Inl (n, _) \<Rightarrow> 3 * n
              | Inr (Inl (n, _)) \<Rightarrow> 3 * n + 2
              | Inr (Inr (n, _)) \<Rightarrow> 3 * n + 1,
         \<lambda>x. case x of
                Inl _ \<Rightarrow> 0
              | Inr (Inl (_, _, _, _, hs, _)) \<Rightarrow> length hs
              | Inr (Inr (_, _, ss)) \<Rightarrow> length ss]")
     auto

subsection \<open>Notation for the first steps of \<open>publish\<close>\<close>

text \<open>The entry a call of \<open>publish\<close> creates, and the world after it was pushed onto the log.\<close>

abbreviation new_entry :: "('a, 's) world \<Rightarrow> topic \<Rightarrow> 'a jsval \<Rightarrow> 'a entry" where
  "new_entry w ev p \<equiv> \<lparr>event = ev, payload = p, timestamp = clock w (reads w)\<rparr>"

abbreviation pushed :: "('a, 's) world \<Rightarrow> 'a entry \<Rightarrow> ('a, 's) world" where
  "pushed w e \<equiv> w\<lparr>log := log w @ [e], reads := Suc (reads w)\<rparr>"

subsection \<open>Reading a run\<close>

text \<open>The entries a run pushed onto the log, in order.\<close>

fun appended :: "'a obs list \<Rightarrow> 'a entry list" where
  "appended [] = []"
| "appended (Appended e # tr) = e # appended tr"
| "appended (Invoked r i p n # tr) = appended tr"
| "appended (Settled r i out # tr) = appended tr"

text \<open>The dispatch round a handler observation belongs to.\<close>

fun round_of :: "'a obs \<Rightarrow> nat option" where
  "round_of (Appended e) = None"
| "round_of (Invoked r i p n) = Some r"
| "round_of (Settled r i out) = Some r"

text \<open>The handler calls of round \<open>r\<close>, in order: handler index and payload.\<close>

fun invocations :: "nat \<Rightarrow> 'a obs list \<Rightarrow> (nat \<times> 'a jsval) list" where
  "invocations r [] = []"
| "invocations r (Invoked r' i p n # tr) =
     (if r' = r then (i, p) # invocations r tr else invocations r tr)"
| "invocations r (Appended e # tr) = invocations r tr"
| "invocations r (Settled r' i out # tr) = invocations r tr"

subsection \<open>A caller\<close>

text \<open>
  A caller that issues calls one after the other, awaits each and catches what it throws, as
  \<^verbatim>\<open>try { await bus.publish(...) } catch (e) {}\<close> does. It returns the world reached and
  everything observed on the way; \<open>None\<close> says that a publish reached the depth bound.
\<close>

datatype ('a, 's) call = Subscribe topic "('a, 's) handler" | Publish topic "'a jsval"

fun run_calls ::
  "nat \<Rightarrow> ('a, 's) world \<Rightarrow> ('a, 's) call list \<Rightarrow> (('a, 's) world \<times> 'a obs list) option" where
  "run_calls n w [] = Some (w, [])"
| "run_calls n w (Subscribe ev h # cs) =
     (case subscribe w ev h of
        Inl err \<Rightarrow> run_calls n w cs
      | Inr (ret, w1) \<Rightarrow> run_calls n w1 cs)"
| "run_calls n w (Publish ev p # cs) =
     (case publish n w ev p of
        None \<Rightarrow> None
      | Some (out, w1, tr) \<Rightarrow>
          (case run_calls n w1 cs of
             None \<Rightarrow> None
           | Some (w2, tr2) \<Rightarrow> Some (w2, tr @ tr2)))"

subsection \<open>The event loop: handlers that do not await\<close>

text \<open>
  \<^verbatim>\<open>await handler(payload)\<close> waits for the promise the handler returns and for nothing else.
  A handler may call \<^verbatim>\<open>bus.publish(...)\<close> without \<^verbatim>\<open>await\<close>; the functions above cannot
  express that, because there the rest of such a publish runs later, between the steps of
  whoever is still running. This subsection models the runtime that makes it so.

  An \<open>act\<close> is a statement of a handler: an awaited publish, a publish that is not awaited,
  or a \<^verbatim>\<open>throw\<close>.
\<close>

datatype 'a act = Await topic "'a jsval" | Fire topic "'a jsval" | Raise error

type_synonym ('a, 's) task = "'s \<Rightarrow> 'a jsval \<Rightarrow> 's \<times> 'a act list"

text \<open>
  A chain of pending \<^verbatim>\<open>await\<close>s is a stack of frames, innermost first. \<open>Body r i ss\<close> is
  handler \<open>i\<close> of round \<open>r\<close> with the statements \<open>ss\<close> still to run; \<open>Loop r i hs p\<close> is the
  \<^verbatim>\<open>for\<close> loop of round \<open>r\<close> about to call the head of \<open>hs\<close>, which has index \<open>i\<close>, with
  payload \<open>p\<close>.
\<close>

datatype ('a, 's) frame =
    Body nat nat "'a act list"
  | Loop nat nat "('a, 's) task list" "'a jsval"

text \<open>A chain either waits for its timer or has settled.\<close>

datatype status = Parked | Ended outcome

text \<open>
  The synchronous part of a call of \<open>publish\<close>, up to the loop: the entry is pushed,
  \<open>notifyBusLog\<close> runs, the handler list is read (from the registry \<open>reg\<close>, which holds
  handlers of the general kind). The result is an error thrown on the way, or the list to loop
  over.
\<close>

definition call_publish ::
  "(topic \<rightharpoonup> ('a, 's) task list) \<Rightarrow> ('a, 's) world \<Rightarrow> topic \<Rightarrow> 'a jsval
     \<Rightarrow> ('a, 's) world \<times> 'a entry \<times> (error + ('a, 's) task list)" where
  "call_publish reg w ev p =
     (let e = \<lparr>event = ev, payload = p, timestamp = clock w (reads w)\<rparr>;
          w1 = w\<lparr>log := log w @ [e], reads := Suc (reads w)\<rparr>
      in case notifyBusLog (busLogEl w1) e of
           Inl err \<Rightarrow> (w1, e, Inl err)
         | Inr el \<Rightarrow>
             (let w2 = w1\<lparr>busLogEl := el\<rparr>
              in case reg ev of
                   Some hs \<Rightarrow> (w2, e, Inr hs)
                 | None \<Rightarrow> if ev \<in> set Object_prototype then (w2, e, Inl TypeError)
                           else (w2, e, Inr [])))"

text \<open>
  A rejection passes through every pending \<^verbatim>\<open>await\<close> of the chain (no handler catches):
  each handler on the way settles as rejected.
\<close>

fun rejections :: "error \<Rightarrow> ('a, 's) frame list \<Rightarrow> 'a obs list" where
  "rejections err [] = []"
| "rejections err (Body r i ss # st) = Settled r i (Rejected err) # rejections err st"
| "rejections err (Loop r i hs p # st) = rejections err st"

text \<open>
  \<open>run\<close> runs a chain until it reaches \<^verbatim>\<open>await delay(400)\<close>, where it is put at the end of
  the timer queue \<open>q\<close>, or until it settles. \<open>tid\<close> names the chain (by the round of the
  publish that started it). A publish that is not awaited runs its synchronous part at once; if
  it has handlers to call its loop becomes a chain of its own at the end of the queue, and the
  handler goes on. Its failure is nobody's to observe.
\<close>

fun run ::
  "(topic \<rightharpoonup> ('a, 's) task list) \<Rightarrow> nat \<Rightarrow> ('a, 's) frame list \<Rightarrow> ('a, 's) world
     \<Rightarrow> (nat \<times> ('a, 's) frame list) list
     \<Rightarrow> status \<times> ('a, 's) world \<times> (nat \<times> ('a, 's) frame list) list \<times> 'a obs list" where
  "run reg tid [] w q = (Ended Fulfilled, w, q, [])"
| "run reg tid (Loop r i [] p # st) w q = run reg tid st w q"
| "run reg tid (Loop r i (h # hs) p # st) w q =
     (Parked, w, q @ [(tid, Loop r i (h # hs) p # st)], [])"
| "run reg tid (Body r i [] # st) w q =
     (case run reg tid st w q of
        (res, w1, q1, tr) \<Rightarrow> (res, w1, q1, Settled r i Fulfilled # tr))"
| "run reg tid (Body r i (Raise err # ss) # st) w q =
     (Ended (Rejected err), w, q, rejections err (Body r i ss # st))"
| "run reg tid (Body r i (Await ev p # ss) # st) w q =
     (case call_publish reg w ev p of
        (w1, e, Inl err) \<Rightarrow>
          (Ended (Rejected err), w1, q, Appended e # rejections err (Body r i ss # st))
      | (w1, e, Inr []) \<Rightarrow>
          (case run reg tid (Body r i ss # st) w1 q of
             (res, w2, q2, tr) \<Rightarrow> (res, w2, q2, Appended e # tr))
      | (w1, e, Inr (h # hs)) \<Rightarrow>
          (Parked, w1, q @ [(tid, Loop (length (log w)) 0 (h # hs) p # Body r i ss # st)],
           [Appended e]))"
| "run reg tid (Body r i (Fire ev p # ss) # st) w q =
     (case call_publish reg w ev p of
        (w1, e, Inl err) \<Rightarrow>
          (case run reg tid (Body r i ss # st) w1 q of
             (res, w2, q2, tr) \<Rightarrow> (res, w2, q2, Appended e # tr))
      | (w1, e, Inr []) \<Rightarrow>
          (case run reg tid (Body r i ss # st) w1 q of
             (res, w2, q2, tr) \<Rightarrow> (res, w2, q2, Appended e # tr))
      | (w1, e, Inr (h # hs)) \<Rightarrow>
          (case run reg tid (Body r i ss # st) w1
                  (q @ [(length (log w), [Loop (length (log w)) 0 (h # hs) p])]) of
             (res, w2, q2, tr) \<Rightarrow> (res, w2, q2, Appended e # tr)))"

text \<open>
  A timer fires: the loop on top of the chain calls its next handler. All pauses are equally
  long, so the timers fire in the order in which they were set. (\<open>run\<close> parks a chain only
  with such a loop on top; the second equation completes the definition.)
\<close>

fun resume ::
  "(topic \<rightharpoonup> ('a, 's) task list) \<Rightarrow> nat \<times> ('a, 's) frame list \<Rightarrow> ('a, 's) world
     \<Rightarrow> (nat \<times> ('a, 's) frame list) list
     \<Rightarrow> status \<times> ('a, 's) world \<times> (nat \<times> ('a, 's) frame list) list \<times> 'a obs list" where
  "resume reg (tid, Loop r i (h # hs) p # st) w q =
     (let (s, body) = h (services w) p
      in case run reg tid (Body r i body # Loop r (Suc i) hs p # st) (w\<lparr>services := s\<rparr>) q of
           (res, w1, q1, tr) \<Rightarrow> (res, w1, q1, Invoked r i p (length (log w)) # tr))"
| "resume reg (tid, st) w q = run reg tid st w q"

text \<open>
  \<open>drive\<close> lets up to \<open>k\<close> timers fire, first in first out, until the chain \<open>main\<close>
  settles; \<open>publish_async\<close> is a call of \<open>publish\<close> whose promise the caller awaits, on a
  runtime with no other timer pending. The result holds the chains that are still pending when
  the promise settles. \<open>None\<close> says that \<open>k\<close> timers were not enough (a queue that is empty
  while \<open>main\<close> is pending does not arise: a pending chain is in the queue).
\<close>

fun drive ::
  "nat \<Rightarrow> (topic \<rightharpoonup> ('a, 's) task list) \<Rightarrow> nat \<Rightarrow> ('a, 's) world
     \<Rightarrow> (nat \<times> ('a, 's) frame list) list
     \<Rightarrow> (outcome \<times> ('a, 's) world \<times> (nat \<times> ('a, 's) frame list) list \<times> 'a obs list) option" where
  "drive 0 reg main w q = None"
| "drive (Suc k) reg main w [] = None"
| "drive (Suc k) reg main w (th # q) =
     (case resume reg th w q of
        (Ended out, w1, q1, tr) \<Rightarrow>
          if fst th = main then Some (out, w1, q1, tr)
          else (case drive k reg main w1 q1 of
                  None \<Rightarrow> None
                | Some (out2, w2, q2, tr2) \<Rightarrow> Some (out2, w2, q2, tr @ tr2))
      | (Parked, w1, q1, tr) \<Rightarrow>
          (case drive k reg main w1 q1 of
             None \<Rightarrow> None
           | Some (out2, w2, q2, tr2) \<Rightarrow> Some (out2, w2, q2, tr @ tr2)))"

definition publish_async ::
  "nat \<Rightarrow> (topic \<rightharpoonup> ('a, 's) task list) \<Rightarrow> ('a, 's) world \<Rightarrow> topic \<Rightarrow> 'a jsval
     \<Rightarrow> (outcome \<times> ('a, 's) world \<times> (nat \<times> ('a, 's) frame list) list \<times> 'a obs list) option" where
  "publish_async k reg w ev p =
     (case call_publish reg w ev p of
        (w1, e, Inl err) \<Rightarrow> Some (Rejected err, w1, [], [Appended e])
      | (w1, e, Inr []) \<Rightarrow> Some (Fulfilled, w1, [], [Appended e])
      | (w1, e, Inr (h # hs)) \<Rightarrow>
          (case drive k reg (length (log w)) w1
                  [(length (log w), [Loop (length (log w)) 0 (h # hs) p])] of
             None \<Rightarrow> None
           | Some (out, w2, q2, tr) \<Rightarrow> Some (out, w2, q2, Appended e # tr)))"

text \<open>
  The handlers of the first model, which await every publish they issue, as handlers of the
  general kind.
\<close>

fun lift :: "'a stmt \<Rightarrow> 'a act" where
  "lift (AwaitPublish ev p) = Await ev p"
| "lift (Throw err) = Raise err"

definition lift_handler :: "('a, 's) handler \<Rightarrow> ('a, 's) task" where
  "lift_handler h s p = (case h s p of (s1, ss) \<Rightarrow> (s1, map lift ss))"

definition lift_registry ::
  "(topic \<rightharpoonup> ('a, 's) handler list) \<Rightarrow> (topic \<rightharpoonup> ('a, 's) task list)" where
  "lift_registry subs ev = map_option (map lift_handler) (subs ev)"

text \<open>
  \<open>go\<close> runs a chain and, if it parks, lets timers fire until the chain settles;
  \<open>after tr\<close> puts the observations \<open>tr\<close> before those of a result.
\<close>

definition after ::
  "'a obs list \<Rightarrow> (outcome \<times> 'w \<times> 'q \<times> 'a obs list) option
     \<Rightarrow> (outcome \<times> 'w \<times> 'q \<times> 'a obs list) option" where
  "after tr x = (case x of None \<Rightarrow> None | Some (out, w, q, tr2) \<Rightarrow> Some (out, w, q, tr @ tr2))"

definition go ::
  "nat \<Rightarrow> (topic \<rightharpoonup> ('a, 's) task list) \<Rightarrow> nat \<Rightarrow> ('a, 's) frame list \<Rightarrow> ('a, 's) world
     \<Rightarrow> (nat \<times> ('a, 's) frame list) list
     \<Rightarrow> (outcome \<times> ('a, 's) world \<times> (nat \<times> ('a, 's) frame list) list \<times> 'a obs list) option" where
  "go k reg tid st w q =
     (case run reg tid st w q of
        (Ended out, w1, q1, tr) \<Rightarrow> Some (out, w1, q1, tr)
      | (Parked, w1, q1, tr) \<Rightarrow> after tr (drive k reg tid w1 q1))"

subsection \<open>Example buses\<close>

text \<open>
  Two clocks: one that advances by the 400 ms pause between readings, and one read twice
  within the same millisecond.
\<close>

definition tick :: "nat \<Rightarrow> nat" where
  "tick k = 400 * k"

definition stalled :: "nat \<Rightarrow> nat" where
  "stalled k = 7"

text \<open>
  Handlers that use the bus the way the handlers of the repository's services do: \<open>relay ev\<close>
  awaits the publish of one follow-up event. Unlike the repository's handlers it does not read
  its payload, so it also accepts payloads on which those would throw. \<open>idle\<close> does nothing
  on the bus; \<open>boom\<close> throws.
\<close>

definition relay :: "topic \<Rightarrow> (unit, unit) handler" where
  "relay ev s p = (s, [AwaitPublish ev (Obj ())])"

definition idle :: "(unit, unit) handler" where
  "idle s p = (s, [])"

definition boom :: "(unit, unit) handler" where
  "boom s p = (s, [Throw (Thrown ''boom'')])"

text \<open>
  The wiring the service constructors of \<^verbatim>\<open>src/soa.js\<close> set up: the inventory, loyalty and
  notification services subscribe to \<^verbatim>\<open>order.placed\<close> in this order, and the notification
  service also to \<^verbatim>\<open>loyalty.updated\<close>. \<open>shop_log\<close> and \<open>shop_trace\<close> are the log and the
  observations of publishing \<^verbatim>\<open>order.placed\<close> on it.
\<close>

definition shop :: "(unit, unit) world" where
  "shop = (new_bus None tick ())\<lparr>subscribers :=
     [''order.placed'' \<mapsto> [relay ''inventory.updated'', relay ''loyalty.updated'', relay ''notification.sent''],
      ''loyalty.updated'' \<mapsto> [relay ''notification.sent'']]\<rparr>"

definition shop_log :: "unit entry list" where
  "shop_log =
     [\<lparr>event = ''order.placed'', payload = Obj (), timestamp = 0\<rparr>,
      \<lparr>event = ''inventory.updated'', payload = Obj (), timestamp = 400\<rparr>,
      \<lparr>event = ''loyalty.updated'', payload = Obj (), timestamp = 800\<rparr>,
      \<lparr>event = ''notification.sent'', payload = Obj (), timestamp = 1200\<rparr>,
      \<lparr>event = ''notification.sent'', payload = Obj (), timestamp = 1600\<rparr>]"

definition shop_trace :: "unit obs list" where
  "shop_trace =
     [Appended \<lparr>event = ''order.placed'', payload = Obj (), timestamp = 0\<rparr>,
      Invoked 0 0 (Obj ()) 1,
      Appended \<lparr>event = ''inventory.updated'', payload = Obj (), timestamp = 400\<rparr>,
      Settled 0 0 Fulfilled,
      Invoked 0 1 (Obj ()) 2,
      Appended \<lparr>event = ''loyalty.updated'', payload = Obj (), timestamp = 800\<rparr>,
      Invoked 2 0 (Obj ()) 3,
      Appended \<lparr>event = ''notification.sent'', payload = Obj (), timestamp = 1200\<rparr>,
      Settled 2 0 Fulfilled,
      Settled 0 1 Fulfilled,
      Invoked 0 2 (Obj ()) 4,
      Appended \<lparr>event = ''notification.sent'', payload = Obj (), timestamp = 1600\<rparr>,
      Settled 0 2 Fulfilled]"

text \<open>A bus whose only handler publishes to the topic it listens to.\<close>

definition echo :: "(unit, unit) world" where
  "echo = (new_bus None tick ())\<lparr>subscribers := [''ping'' \<mapsto> [relay ''ping'']]\<rparr>"

text \<open>A bus whose first handler for \<^verbatim>\<open>order.placed\<close> throws.\<close>

definition brittle :: "(unit, unit) world" where
  "brittle = (new_bus None tick ())\<lparr>subscribers := [''order.placed'' \<mapsto> [boom, idle]]\<rparr>"

text \<open>
  A bus whose first handler for \<^verbatim>\<open>order.placed\<close> awaits a publish and whose second one
  throws.
\<close>

definition flaky :: "(unit, unit) world" where
  "flaky = (new_bus None tick ())\<lparr>subscribers :=
     [''order.placed'' \<mapsto> [relay ''inventory.updated'', boom]]\<rparr>"





section \<open>How a run unfolds\<close>

lemma publish_Suc_cases:
  assumes "publish (Suc n) w ev p = Some (out, w', tr)"
  obtains
    (notify_throws) err where
      "notifyBusLog (busLogEl w) (new_entry w ev p) = Inl err"
      "out = Rejected err" "w' = pushed w (new_entry w ev p)" "tr = [Appended (new_entry w ev p)]"
  | (no_handlers) el where
      "notifyBusLog (busLogEl w) (new_entry w ev p) = Inr el"
      "read_subscribers (subscribers w) ev = None"
      "out = Fulfilled" "w' = (pushed w (new_entry w ev p))\<lparr>busLogEl := el\<rparr>"
      "tr = [Appended (new_entry w ev p)]"
  | (not_iterable) el where
      "notifyBusLog (busLogEl w) (new_entry w ev p) = Inr el"
      "read_subscribers (subscribers w) ev = Some Builtin"
      "out = Rejected TypeError" "w' = (pushed w (new_entry w ev p))\<lparr>busLogEl := el\<rparr>"
      "tr = [Appended (new_entry w ev p)]"
  | (round) el hs tr' where
      "notifyBusLog (busLogEl w) (new_entry w ev p) = Inr el"
      "read_subscribers (subscribers w) ev = Some (Array hs)"
      "dispatch n ((pushed w (new_entry w ev p))\<lparr>busLogEl := el\<rparr>) (length (log w)) 0 hs p
         = Some (out, w', tr')"
      "tr = Appended (new_entry w ev p) # tr'"
  using assms
  by (simp add: Let_def split: sum.splits option.splits slot.splits prod.splits)

lemma dispatch_Cons_cases:
  assumes "dispatch n w r i (h # hs) p = Some (out, w', tr)"
  obtains
    (handler_rejects) s body err tr1 where
      "h (services w) p = (s, body)"
      "run_body n (w\<lparr>services := s\<rparr>) body = Some (Rejected err, w', tr1)"
      "out = Rejected err"
      "tr = Invoked r i p (length (log w)) # tr1 @ [Settled r i (Rejected err)]"
  | (handler_fulfils) s body w1 tr1 tr2 where
      "h (services w) p = (s, body)"
      "run_body n (w\<lparr>services := s\<rparr>) body = Some (Fulfilled, w1, tr1)"
      "dispatch n w1 r (Suc i) hs p = Some (out, w', tr2)"
      "tr = Invoked r i p (length (log w)) # tr1 @ Settled r i Fulfilled # tr2"
  using assms
  by (auto split: prod.splits option.splits outcome.splits)

lemma run_body_publish_cases:
  assumes "run_body n w (AwaitPublish ev p # ss) = Some (out, w', tr)"
  obtains
    (publish_rejects) err where
      "publish n w ev p = Some (Rejected err, w', tr)" "out = Rejected err"
  | (publish_fulfils) w1 tr1 tr2 where
      "publish n w ev p = Some (Fulfilled, w1, tr1)"
      "run_body n w1 ss = Some (out, w', tr2)"
      "tr = tr1 @ tr2"
  using assms
  by (auto split: prod.splits option.splits outcome.splits)


lemma run_induct:
  fixes P :: "('a, 's) world \<Rightarrow> topic \<Rightarrow> 'a jsval \<Rightarrow> outcome \<Rightarrow> ('a, 's) world \<Rightarrow> 'a obs list \<Rightarrow> bool"
    and Q :: "('a, 's) world \<Rightarrow> nat \<Rightarrow> nat \<Rightarrow> ('a, 's) handler list \<Rightarrow> 'a jsval
                \<Rightarrow> outcome \<Rightarrow> ('a, 's) world \<Rightarrow> 'a obs list \<Rightarrow> bool"
    and R :: "('a, 's) world \<Rightarrow> 'a stmt list \<Rightarrow> outcome \<Rightarrow> ('a, 's) world \<Rightarrow> 'a obs list \<Rightarrow> bool"
  assumes notify_throws: "\<And>w ev p err.
      notifyBusLog (busLogEl w) (new_entry w ev p) = Inl err \<Longrightarrow>
      P w ev p (Rejected err) (pushed w (new_entry w ev p)) [Appended (new_entry w ev p)]"
    and no_handlers: "\<And>w ev p el.
      notifyBusLog (busLogEl w) (new_entry w ev p) = Inr el \<Longrightarrow>
      read_subscribers (subscribers w) ev = None \<Longrightarrow>
      P w ev p Fulfilled ((pushed w (new_entry w ev p))\<lparr>busLogEl := el\<rparr>)
        [Appended (new_entry w ev p)]"
    and not_iterable: "\<And>w ev p el.
      notifyBusLog (busLogEl w) (new_entry w ev p) = Inr el \<Longrightarrow>
      read_subscribers (subscribers w) ev = Some Builtin \<Longrightarrow>
      P w ev p (Rejected TypeError) ((pushed w (new_entry w ev p))\<lparr>busLogEl := el\<rparr>)
        [Appended (new_entry w ev p)]"
    and round: "\<And>n w ev p el hs out w' tr.
      notifyBusLog (busLogEl w) (new_entry w ev p) = Inr el \<Longrightarrow>
      read_subscribers (subscribers w) ev = Some (Array hs) \<Longrightarrow>
      dispatch n ((pushed w (new_entry w ev p))\<lparr>busLogEl := el\<rparr>) (length (log w)) 0 hs p
        = Some (out, w', tr) \<Longrightarrow>
      Q ((pushed w (new_entry w ev p))\<lparr>busLogEl := el\<rparr>) (length (log w)) 0 hs p out w' tr \<Longrightarrow>
      P w ev p out w' (Appended (new_entry w ev p) # tr)"
    and loop_done: "\<And>w r i p. Q w r i [] p Fulfilled w []"
    and handler_rejects: "\<And>n w r i h hs p s body err w' tr.
      h (services w) p = (s, body) \<Longrightarrow>
      run_body n (w\<lparr>services := s\<rparr>) body = Some (Rejected err, w', tr) \<Longrightarrow>
      R (w\<lparr>services := s\<rparr>) body (Rejected err) w' tr \<Longrightarrow>
      Q w r i (h # hs) p (Rejected err) w'
        (Invoked r i p (length (log w)) # tr @ [Settled r i (Rejected err)])"
    and handler_fulfils: "\<And>n w r i h hs p s body w1 tr1 out w' tr2.
      h (services w) p = (s, body) \<Longrightarrow>
      run_body n (w\<lparr>services := s\<rparr>) body = Some (Fulfilled, w1, tr1) \<Longrightarrow>
      R (w\<lparr>services := s\<rparr>) body Fulfilled w1 tr1 \<Longrightarrow>
      dispatch n w1 r (Suc i) hs p = Some (out, w', tr2) \<Longrightarrow>
      Q w1 r (Suc i) hs p out w' tr2 \<Longrightarrow>
      Q w r i (h # hs) p out w'
        (Invoked r i p (length (log w)) # tr1 @ Settled r i Fulfilled # tr2)"
    and body_done: "\<And>w. R w [] Fulfilled w []"
    and body_throws: "\<And>w err ss. R w (Throw err # ss) (Rejected err) w []"
    and publish_rejects: "\<And>n w ev p ss err w' tr.
      publish n w ev p = Some (Rejected err, w', tr) \<Longrightarrow>
      P w ev p (Rejected err) w' tr \<Longrightarrow>
      R w (AwaitPublish ev p # ss) (Rejected err) w' tr"
    and publish_fulfils: "\<And>n w ev p ss w1 tr1 out w' tr2.
      publish n w ev p = Some (Fulfilled, w1, tr1) \<Longrightarrow>
      P w ev p Fulfilled w1 tr1 \<Longrightarrow>
      run_body n w1 ss = Some (out, w', tr2) \<Longrightarrow>
      R w1 ss out w' tr2 \<Longrightarrow>
      R w (AwaitPublish ev p # ss) out w' (tr1 @ tr2)"
  shows "publish n w ev p = Some (out, w', tr) \<Longrightarrow> P w ev p out w' tr"
    and "dispatch n w r i hs p = Some (out, w', tr) \<Longrightarrow> Q w r i hs p out w' tr"
    and "run_body n w ss = Some (out, w', tr) \<Longrightarrow> R w ss out w' tr"
proof -
  have body: "R w ss out w' tr"
    if pub: "\<forall>w ev p out w' tr. publish n w ev p = Some (out, w', tr) \<longrightarrow> P w ev p out w' tr"
      and run: "run_body n w ss = Some (out, w', tr)"
    for n w ss out w' tr
    using run
  proof (induction ss arbitrary: w out w' tr)
    case Nil
    then show ?case using body_done by auto
  next
    case (Cons st ss)
    show ?case
    proof (cases st)
      case (Throw err)
      with Cons.prems show ?thesis using body_throws by auto
    next
      case (AwaitPublish ev p)
      from Cons.prems [unfolded AwaitPublish] show ?thesis
      proof (cases rule: run_body_publish_cases)
        case (publish_rejects err)
        have p1: "P w ev p (Rejected err) w' tr"
          using pub publish_rejects(1) by blast
        show ?thesis
          unfolding AwaitPublish publish_rejects(2)
          by (rule assms(10)) (fact publish_rejects(1), fact p1)
      next
        case (publish_fulfils w1 tr1 tr2)
        have p1: "P w ev p Fulfilled w1 tr1"
          using pub publish_fulfils(1) by blast
        have r1: "R w1 ss out w' tr2"
          by (rule Cons.IH [OF publish_fulfils(2)])
        show ?thesis
          unfolding AwaitPublish publish_fulfils(3)
          by (rule assms(11)) (fact publish_fulfils(1), fact p1, fact publish_fulfils(2), fact r1)
      qed
    qed
  qed
  have loop: "Q w r i hs p out w' tr"
    if pub: "\<forall>w ev p out w' tr. publish n w ev p = Some (out, w', tr) \<longrightarrow> P w ev p out w' tr"
      and run: "dispatch n w r i hs p = Some (out, w', tr)"
    for n w r i hs p out w' tr
    using run
  proof (induction hs arbitrary: w i out w' tr)
    case Nil
    then show ?case using loop_done by auto
  next
    case (Cons h hs)
    from Cons.prems show ?case
    proof (cases rule: dispatch_Cons_cases)
      case (handler_rejects s body err tr1)
      have r1: "R (w\<lparr>services := s\<rparr>) body (Rejected err) w' tr1"
        by (rule body [OF pub handler_rejects(2)])
      show ?thesis
        unfolding handler_rejects(3,4)
        by (rule assms(6)) (fact handler_rejects(1), fact handler_rejects(2), fact r1)
    next
      case (handler_fulfils s body w1 tr1 tr2)
      have r1: "R (w\<lparr>services := s\<rparr>) body Fulfilled w1 tr1"
        by (rule body [OF pub handler_fulfils(2)])
      have q1: "Q w1 r (Suc i) hs p out w' tr2"
        by (rule Cons.IH [OF handler_fulfils(3)])
      show ?thesis
        unfolding handler_fulfils(4)
        by (rule assms(7))
          (fact handler_fulfils(1), fact handler_fulfils(2), fact r1, fact handler_fulfils(3), fact q1)
    qed
  qed
  have top: "publish n w ev p = Some (out, w', tr) \<Longrightarrow> P w ev p out w' tr" for n w ev p out w' tr
  proof (induction n arbitrary: w ev p out w' tr)
    case 0
    then show ?case by simp
  next
    case (Suc n)
    from Suc.prems show ?case
    proof (cases rule: publish_Suc_cases)
      case (notify_throws err)
      then show ?thesis using assms(1) by simp
    next
      case (no_handlers el)
      then show ?thesis using assms(2) by simp
    next
      case (not_iterable el)
      then show ?thesis using assms(3) by simp
    next
      case (round el hs tr')
      have "\<forall>w ev p out w' tr. publish n w ev p = Some (out, w', tr) \<longrightarrow> P w ev p out w' tr"
        using Suc.IH by blast
      from loop [OF this round(3)]
      have "Q ((pushed w (new_entry w ev p))\<lparr>busLogEl := el\<rparr>) (length (log w)) 0 hs p out w' tr'" .
      then show ?thesis
        unfolding round(4)
        by (rule assms(4) [OF round(1) round(2) round(3)])
    qed
  qed
  show "publish n w ev p = Some (out, w', tr) \<Longrightarrow> P w ev p out w' tr"
    by (rule top)
  have all: "\<forall>w ev p out w' tr. publish n w ev p = Some (out, w', tr) \<longrightarrow> P w ev p out w' tr"
    using top by blast
  show "dispatch n w r i hs p = Some (out, w', tr) \<Longrightarrow> Q w r i hs p out w' tr"
    by (rule loop [OF all])
  show "run_body n w ss = Some (out, w', tr) \<Longrightarrow> R w ss out w' tr"
    by (rule body [OF all])
qed

lemma appended_append [simp]: "appended (xs @ ys) = appended xs @ appended ys"
  by (induction xs rule: appended.induct) auto

lemma frame:
  shows "publish n w ev p = Some (out, w', tr) \<Longrightarrow>
           subscribers w' = subscribers w \<and> clock w' = clock w \<and> log w' = log w @ appended tr"
    and "dispatch n w r i hs p = Some (out, w', tr) \<Longrightarrow>
           subscribers w' = subscribers w \<and> clock w' = clock w \<and> log w' = log w @ appended tr"
    and "run_body n w ss = Some (out, w', tr) \<Longrightarrow>
           subscribers w' = subscribers w \<and> clock w' = clock w \<and> log w' = log w @ appended tr"
  by (rule run_induct [where
        P = "\<lambda>w ev p out w' tr. subscribers w' = subscribers w \<and> clock w' = clock w \<and> log w' = log w @ appended tr"
        and Q = "\<lambda>w r i hs p out w' tr. subscribers w' = subscribers w \<and> clock w' = clock w \<and> log w' = log w @ appended tr"
        and R = "\<lambda>w ss out w' tr. subscribers w' = subscribers w \<and> clock w' = clock w \<and> log w' = log w @ appended tr"];
      simp)+

lemma log_grows:
  shows "publish n w ev p = Some (out, w', tr) \<Longrightarrow> length (log w) \<le> length (log w')"
    and "dispatch n w r i hs p = Some (out, w', tr) \<Longrightarrow> length (log w) \<le> length (log w')"
    and "run_body n w ss = Some (out, w', tr) \<Longrightarrow> length (log w) \<le> length (log w')"
  using frame(1) [of n w ev p out w' tr] frame(2) [of n w r i hs p out w' tr]
    frame(3) [of n w ss out w' tr]
  by simp_all

text \<open>Handler observations of a run belong to the rounds the run opens.\<close>

lemma rounds:
  shows "publish n w ev p = Some (out, w', tr) \<Longrightarrow>
           (\<forall>x \<in> set tr. \<forall>k. round_of x = Some k \<longrightarrow> length (log w) \<le> k)"
    and "dispatch n w r i hs p = Some (out, w', tr) \<Longrightarrow>
           (\<forall>x \<in> set tr. \<forall>k. round_of x = Some k \<longrightarrow> k = r \<or> length (log w) \<le> k)"
    and "run_body n w ss = Some (out, w', tr) \<Longrightarrow>
           (\<forall>x \<in> set tr. \<forall>k. round_of x = Some k \<longrightarrow> length (log w) \<le> k)"
  by (rule run_induct [where
        P = "\<lambda>w ev p out w' tr. \<forall>x \<in> set tr. \<forall>k. round_of x = Some k \<longrightarrow> length (log w) \<le> k"
        and Q = "\<lambda>w r i hs p out w' tr. \<forall>x \<in> set tr. \<forall>k. round_of x = Some k \<longrightarrow> k = r \<or> length (log w) \<le> k"
        and R = "\<lambda>w ss out w' tr. \<forall>x \<in> set tr. \<forall>k. round_of x = Some k \<longrightarrow> length (log w) \<le> k"];
      fastforce dest: log_grows(1) log_grows(3))+

text \<open>When a handler is called, the entry of its round is in the log.\<close>

lemma invoked_after_append:
  shows "publish n w ev p = Some (out, w', tr) \<Longrightarrow>
           (\<forall>k i q m. Invoked k i q m \<in> set tr \<longrightarrow> k < m)"
    and "dispatch n w r i hs p = Some (out, w', tr) \<Longrightarrow>
           r < length (log w) \<longrightarrow> (\<forall>k i q m. Invoked k i q m \<in> set tr \<longrightarrow> k < m)"
    and "run_body n w ss = Some (out, w', tr) \<Longrightarrow>
           (\<forall>k i q m. Invoked k i q m \<in> set tr \<longrightarrow> k < m)"
  by (rule run_induct [where
        P = "\<lambda>w ev p out w' tr. \<forall>k i q m. Invoked k i q m \<in> set tr \<longrightarrow> k < m"
        and Q = "\<lambda>w r i hs p out w' tr. r < length (log w) \<longrightarrow> (\<forall>k i q m. Invoked k i q m \<in> set tr \<longrightarrow> k < m)"
        and R = "\<lambda>w ss out w' tr. \<forall>k i q m. Invoked k i q m \<in> set tr \<longrightarrow> k < m"];
      fastforce dest: log_grows(1) log_grows(3))+


lemma publish_first_obs:
  assumes "publish n w ev p = Some (out, w', tr)"
  shows "\<exists>rest. tr = Appended (new_entry w ev p) # rest"
proof (cases n)
  case 0
  with assms show ?thesis by simp
next
  case (Suc n')
  from assms [unfolded Suc] show ?thesis
    by (cases rule: publish_Suc_cases) simp_all
qed

lemma read_own: "subscribers w ev = Some hs \<Longrightarrow> read_subscribers (subscribers w) ev = Some (Array hs)"
  by (simp add: read_subscribers_def)







lemma dispatch_rejected:
  "dispatch n w r i hs p = Some (Rejected err, w', tr) \<Longrightarrow>
     \<exists>j. Settled r j (Rejected err) \<in> set tr"
proof (induction hs arbitrary: w i tr)
  case Nil
  then show ?case by simp
next
  case (Cons h hs)
  from Cons.prems show ?case
  proof (cases rule: dispatch_Cons_cases)
    case (handler_rejects s body err' tr1)
    then show ?thesis by auto
  next
    case (handler_fulfils s body w1 tr1 tr2)
    from Cons.IH [OF handler_fulfils(3)] show ?thesis
      unfolding handler_fulfils(4) by auto
  qed
qed

lemma publish_rejected_cases:
  assumes "publish n w ev p = Some (Rejected err, w', tr)"
  shows "notifyBusLog (busLogEl w) (new_entry w ev p) = Inl err \<or>
         (read_subscribers (subscribers w) ev = Some Builtin \<and> err = TypeError) \<or>
         (\<exists>j. Settled (length (log w)) j (Rejected err) \<in> set tr)"
proof (cases n)
  case 0
  with assms show ?thesis by simp
next
  case (Suc n')
  from assms [unfolded Suc] show ?thesis
  proof (cases rule: publish_Suc_cases)
    case (round el hs tr')
    from dispatch_rejected [OF round(3)] show ?thesis
      unfolding round(4) by auto
  qed simp_all
qed

lemma invocations_append [simp]: "invocations r (xs @ ys) = invocations r xs @ invocations r ys"
  by (induction xs rule: invocations.induct) auto

lemma invocations_other_rounds:
  "\<forall>x \<in> set tr. round_of x \<noteq> Some r \<Longrightarrow> invocations r tr = []"
  by (induction tr rule: invocations.induct) auto

lemma dispatch_invocations:
  "dispatch n w r i hs p = Some (Fulfilled, w', tr) \<Longrightarrow> r < length (log w) \<Longrightarrow>
     invocations r tr = map (\<lambda>j. (j, p)) [i ..< i + length hs]"
proof (induction hs arbitrary: w i tr)
  case Nil
  then show ?case by simp
next
  case (Cons h hs)
  from Cons.prems(1) show ?case
  proof (cases rule: dispatch_Cons_cases)
    case (handler_rejects s body err tr1)
    then show ?thesis by simp
  next
    case (handler_fulfils s body w1 tr1 tr2)
    have "\<forall>x \<in> set tr1. round_of x \<noteq> Some r"
      using rounds(3) [OF handler_fulfils(2)] Cons.prems(2) by fastforce
    then have none: "invocations r tr1 = []" by (rule invocations_other_rounds)
    have r: "r < length (log w1)"
      using log_grows(3) [OF handler_fulfils(2)] Cons.prems(2) by simp
    have "invocations r tr2 = map (\<lambda>j. (j, p)) [Suc i ..< Suc i + length hs]"
      by (rule Cons.IH [OF handler_fulfils(3) r])
    moreover have "[i ..< i + length (h # hs)] = i # [Suc i ..< Suc i + length hs]"
      by (subst upt_rec) simp
    ultimately show ?thesis
      unfolding handler_fulfils(4) using none by simp
  qed
qed

lemma publish_invocations:
  assumes "publish n w ev p = Some (Fulfilled, w', tr)" and "subscribers w ev = Some hs"
  shows "invocations (length (log w)) tr = map (\<lambda>j. (j, p)) [0 ..< length hs]"
proof (cases n)
  case 0
  with assms show ?thesis by simp
next
  case (Suc n')
  note own = read_own [OF assms(2)]
  from assms(1) [unfolded Suc] show ?thesis
  proof (cases rule: publish_Suc_cases)
    case (round el hs0 tr')
    have "length (log w) < length (log ((pushed w (new_entry w ev p))\<lparr>busLogEl := el\<rparr>))"
      by simp
    from dispatch_invocations [OF round(3) this] round(2) own show ?thesis
      unfolding round(4) by simp
  qed (use own in simp_all)
qed

lemma subscribe_log: "subscribe w ev h = Inr (ret, w') \<Longrightarrow> log w' = log w"
  by (auto simp: subscribe_def Let_def split: option.splits slot.splits if_splits)

lemma subscribe_result:
  "subscribe w ev h =
     (case subscribers w ev of
        Some hs \<Rightarrow> Inr (Undefined, w\<lparr>subscribers := (subscribers w)(ev \<mapsto> hs @ [h])\<rparr>)
      | None \<Rightarrow> if ev \<in> set Object_prototype then Inl TypeError
                else Inr (Undefined, w\<lparr>subscribers := (subscribers w)(ev \<mapsto> [h])\<rparr>))"
  by (simp add: subscribe_def read_subscribers_def Let_def split: option.splits)

lemma run_calls_append:
  "run_calls n w (cs1 @ cs2) =
     (case run_calls n w cs1 of
        None \<Rightarrow> None
      | Some (w1, tr1) \<Rightarrow>
          (case run_calls n w1 cs2 of
             None \<Rightarrow> None
           | Some (w2, tr2) \<Rightarrow> Some (w2, tr1 @ tr2)))"
proof (induction cs1 arbitrary: w)
  case Nil
  then show ?case by (simp split: option.splits)
next
  case (Cons c cs1)
  then show ?case
    by (cases c) (simp_all split: sum.splits option.splits prod.splits)
qed

lemma run_calls_log: "run_calls n w cs = Some (w', tr) \<Longrightarrow> log w' = log w @ appended tr"
proof (induction cs arbitrary: w tr)
  case Nil
  then show ?case by simp
next
  case (Cons c cs)
  show ?case
  proof (cases c)
    case (Subscribe ev h)
    show ?thesis
    proof (cases "subscribe w ev h")
      case (Inl err)
      with Cons Subscribe show ?thesis by simp
    next
      case (Inr x)
      obtain ret w1 where x: "x = (ret, w1)" by (cases x)
      from Cons.prems Subscribe Inr x have "run_calls n w1 cs = Some (w', tr)" by simp
      then have "log w' = log w1 @ appended tr" by (rule Cons.IH)
      moreover have "log w1 = log w" using Inr x subscribe_log by blast
      ultimately show ?thesis by simp
    qed
  next
    case (Publish ev p)
    from Cons.prems Publish obtain out w1 tr1 tr2 where
      pub: "publish n w ev p = Some (out, w1, tr1)" and
      rest: "run_calls n w1 cs = Some (w', tr2)" and tr: "tr = tr1 @ tr2"
      by (auto split: option.splits)
    from Cons.IH [OF rest] frame(1) [OF pub] tr show ?thesis by simp
  qed
qed

subsection \<open>The depth bound\<close>

text \<open>
  A run that returns within a bound returns the same within every larger bound, so a result
  does not depend on the bound it was computed with. A handler that publishes to its own topic
  never settles: no bound suffices.
\<close>

lemma run_body_more_fuel:
  fixes w :: "('a, 's) world"
  assumes pub: "\<And>(w :: ('a, 's) world) ev p x.
      publish n w ev p = Some x \<Longrightarrow> publish (Suc n) w ev p = Some x"
  shows "run_body n w ss = Some x \<Longrightarrow> run_body (Suc n) w ss = Some x"
proof (induction ss arbitrary: w x)
  case Nil
  then show ?case by simp
next
  case (Cons st ss)
  show ?case
  proof (cases st)
    case (Throw err)
    with Cons.prems show ?thesis by simp
  next
    case (AwaitPublish ev p)
    obtain out w' tr where x: "x = (out, w', tr)" by (cases x)
    from Cons.prems [unfolded AwaitPublish x] show ?thesis
    proof (cases rule: run_body_publish_cases)
      case (publish_rejects err)
      from pub [OF publish_rejects(1)]
      have "publish (Suc n) w ev p = Some (Rejected err, w', tr)" .
      then show ?thesis unfolding AwaitPublish x publish_rejects(2) by simp
    next
      case (publish_fulfils w1 tr1 tr2)
      from pub [OF publish_fulfils(1)]
      have "publish (Suc n) w ev p = Some (Fulfilled, w1, tr1)" .
      moreover have "run_body (Suc n) w1 ss = Some (out, w', tr2)"
        by (rule Cons.IH [OF publish_fulfils(2)])
      ultimately show ?thesis unfolding AwaitPublish x publish_fulfils(3) by simp
    qed
  qed
qed

lemma dispatch_more_fuel:
  fixes w :: "('a, 's) world"
  assumes pub: "\<And>(w :: ('a, 's) world) ev p x.
      publish n w ev p = Some x \<Longrightarrow> publish (Suc n) w ev p = Some x"
  shows "dispatch n w r i hs p = Some x \<Longrightarrow> dispatch (Suc n) w r i hs p = Some x"
proof (induction hs arbitrary: w i x)
  case Nil
  then show ?case by simp
next
  case (Cons h hs)
  obtain out w' tr where x: "x = (out, w', tr)" by (cases x)
  from Cons.prems [unfolded x] show ?case
  proof (cases rule: dispatch_Cons_cases)
    case (handler_rejects s body err tr1)
    from run_body_more_fuel [OF pub handler_rejects(2)] handler_rejects(1)
    show ?thesis unfolding x handler_rejects(3,4) by simp
  next
    case (handler_fulfils s body w1 tr1 tr2)
    from run_body_more_fuel [OF pub handler_fulfils(2)] Cons.IH [OF handler_fulfils(3)]
      handler_fulfils(1)
    show ?thesis unfolding x handler_fulfils(4) by simp
  qed
qed

lemma publish_Suc_fuel:
  "publish n w ev p = Some x \<Longrightarrow> publish (Suc n) w ev p = Some x"
proof (induction n arbitrary: w ev p x)
  case 0
  then show ?case by simp
next
  case (Suc n)
  note pub = Suc.IH
  obtain out w' tr where x: "x = (out, w', tr)" by (cases x)
  from Suc.prems [unfolded x] show ?case
  proof (cases rule: publish_Suc_cases)
    case (round el hs tr')
    from dispatch_more_fuel [OF pub round(3)] round(1,2)
    show ?thesis unfolding x round(4) by (simp add: Let_def)
  qed (simp_all add: x Let_def)
qed

lemma publish_more_fuel:
  "publish n w ev p = Some x \<Longrightarrow> publish (n + k) w ev p = Some x"
proof (induction k)
  case 0
  then show ?case by simp
next
  case (Suc k)
  from publish_Suc_fuel [OF Suc.IH [OF Suc.prems]] show ?case
    by (simp del: publish.simps)
qed

lemma echo_never_settles:
  "subscribers w ''ping'' = Some [relay ''ping''] \<Longrightarrow> busLogEl w = None \<Longrightarrow>
     publish n w ''ping'' p = None"
proof (induction n arbitrary: w p)
  case 0
  then show ?case by simp
next
  case (Suc n)
  let ?w = "(pushed w (new_entry w ''ping'' p))\<lparr>busLogEl := None, services := ()\<rparr>"
  have "publish n ?w ''ping'' (Obj ()) = None"
    by (rule Suc.IH) (use Suc.prems in simp_all)
  with Suc.prems show ?case
    by (simp add: Let_def notifyBusLog_def read_subscribers_def relay_def)
qed

lemma echo_bus_never_settles: "publish n echo ''ping'' p = None"
  by (rule echo_never_settles) (simp_all add: echo_def new_bus_def)

text \<open>Once a handler rejects, the loop returns at once, whatever is registered after it.\<close>

lemma dispatch_stops_at_rejection:
  assumes "dispatch n w r i hs1 p = Some (Fulfilled, w1, tr1)"
    and "h (services w1) p = (s, body)"
    and "run_body n (w1\<lparr>services := s\<rparr>) body = Some (Rejected err, w2, tr2)"
  shows "dispatch n w r i (hs1 @ h # hs2) p =
           Some (Rejected err, w2,
                 tr1 @ Invoked r (i + length hs1) p (length (log w1)) # tr2 @
                 [Settled r (i + length hs1) (Rejected err)])"
  using assms(1)
proof (induction hs1 arbitrary: w i tr1)
  case Nil
  with assms(2,3) show ?case by simp
next
  case (Cons g hs1)
  from Cons.prems show ?case
  proof (cases rule: dispatch_Cons_cases)
    case (handler_fulfils s' body' w' tr' tr'')
    from Cons.IH [OF handler_fulfils(3)] handler_fulfils(1,2)
    show ?thesis unfolding handler_fulfils(4) by simp
  qed simp
qed

section \<open>Awaiting handlers on the event loop\<close>

text \<open>
  For handlers that await every publish they issue, the event loop does what \<open>publish\<close>
  does: whatever a run of \<open>publish\<close> returns, \<open>publish_async\<close> returns for the same
  handlers once enough timers have fired, with the same observations and no chain left pending.
\<close>

lemma after_Nil [simp]: "after [] x = x"
  by (simp add: after_def split: option.splits)

lemma after_after [simp]: "after xs (after ys x) = after (xs @ ys) x"
  by (simp add: after_def split: option.splits)

lemma after_Some [simp]: "after xs (Some (out, w, q, ys)) = Some (out, w, q, xs @ ys)"
  by (simp add: after_def)

lemma go_empty [simp]: "go k reg tid [] w q = Some (Fulfilled, w, q, [])"
  by (simp add: go_def)

lemma go_loop_done [simp]: "go k reg tid (Loop r i [] p # st) w q = go k reg tid st w q"
  by (simp add: go_def)

lemma go_body_done [simp]:
  "go k reg tid (Body r i [] # st) w q = after [Settled r i Fulfilled] (go k reg tid st w q)"
  by (simp add: go_def after_def split: prod.splits status.splits option.splits)

lemma go_raise [simp]:
  "go k reg tid (Body r i (Raise err # ss) # st) w q =
     Some (Rejected err, w, q, Settled r i (Rejected err) # rejections err st)"
  by (simp add: go_def)

lemma go_loop_next:
  "h (services w) p = (s, body) \<Longrightarrow>
   go (Suc k) reg tid (Loop r i (h # hs) p # st) w [] =
     after [Invoked r i p (length (log w))]
       (go k reg tid (Body r i body # Loop r (Suc i) hs p # st) (w\<lparr>services := s\<rparr>) [])"
  by (simp add: go_def after_def split: prod.splits status.splits option.splits)

lemma go_await:
  "go k reg tid (Body r i (Await ev p # ss) # st) w [] =
     (case call_publish reg w ev p of
        (w1, e, Inl err) \<Rightarrow>
          Some (Rejected err, w1, [], Appended e # Settled r i (Rejected err) # rejections err st)
      | (w1, e, Inr hs) \<Rightarrow>
          after [Appended e] (go k reg tid (Loop (length (log w)) 0 hs p # Body r i ss # st) w1 []))"
proof -
  obtain w1 e x where c: "call_publish reg w ev p = (w1, e, x)"
    by (cases "call_publish reg w ev p")
  show ?thesis
  proof (cases x)
    case (Inl err)
    with c show ?thesis by (simp add: go_def)
  next
    case (Inr hs)
    show ?thesis
    proof (cases hs)
      case Nil
      obtain res w2 q2 tr where "run reg tid (Body r i ss # st) w1 [] = (res, w2, q2, tr)"
        by (cases "run reg tid (Body r i ss # st) w1 []")
      with c Inr Nil show ?thesis
        by (cases res) (simp_all add: go_def after_def split: option.splits)
    next
      case (Cons h hs')
      with c Inr show ?thesis
        by (simp add: go_def after_def split: option.splits)
    qed
  qed
qed

lemma call_publish_lifted:
  "call_publish (lift_registry (subscribers w)) w ev p =
     (case notifyBusLog (busLogEl w) (new_entry w ev p) of
        Inl err \<Rightarrow> (pushed w (new_entry w ev p), new_entry w ev p, Inl err)
      | Inr el \<Rightarrow>
          ((pushed w (new_entry w ev p))\<lparr>busLogEl := el\<rparr>, new_entry w ev p,
           case read_subscribers (subscribers w) ev of
             None \<Rightarrow> Inr []
           | Some Builtin \<Rightarrow> Inl TypeError
           | Some (Array hs) \<Rightarrow> Inr (map lift_handler hs)))"
  by (simp add: call_publish_def lift_registry_def read_subscribers_def Let_def
           split: sum.splits option.splits)

lemma dispatch_on_event_loop:
  assumes "dispatch n w r i hs p = Some (out, w', tr)"
  shows "subscribers w' = subscribers w \<and>
         (\<forall>tid st. \<exists>k0. \<forall>k.
            go (k0 + k) (lift_registry (subscribers w)) tid (Loop r i (map lift_handler hs) p # st) w [] =
              (case out of
                 Fulfilled \<Rightarrow> after tr (go k (lift_registry (subscribers w)) tid st w' [])
               | Rejected err \<Rightarrow> Some (Rejected err, w', [], tr @ rejections err st)))"
proof (rule run_induct(2) [where
    P = "\<lambda>w ev p out w' tr. subscribers w' = subscribers w \<and>
         (\<forall>tid r i ss st. \<exists>k0. \<forall>k.
            go (k0 + k) (lift_registry (subscribers w)) tid (Body r i (Await ev p # ss) # st) w [] =
              (case out of
                 Fulfilled \<Rightarrow> after tr (go k (lift_registry (subscribers w)) tid (Body r i ss # st) w' [])
               | Rejected err \<Rightarrow>
                   Some (Rejected err, w', [], tr @ Settled r i (Rejected err) # rejections err st)))"
    and Q = "\<lambda>w r i hs p out w' tr. subscribers w' = subscribers w \<and>
         (\<forall>tid st. \<exists>k0. \<forall>k.
            go (k0 + k) (lift_registry (subscribers w)) tid (Loop r i (map lift_handler hs) p # st) w [] =
              (case out of
                 Fulfilled \<Rightarrow> after tr (go k (lift_registry (subscribers w)) tid st w' [])
               | Rejected err \<Rightarrow> Some (Rejected err, w', [], tr @ rejections err st)))"
    and R = "\<lambda>w ss out w' tr. subscribers w' = subscribers w \<and>
         (\<forall>tid r i st. \<exists>k0. \<forall>k.
            go (k0 + k) (lift_registry (subscribers w)) tid (Body r i (map lift ss) # st) w [] =
              (case out of
                 Fulfilled \<Rightarrow> after tr (go k (lift_registry (subscribers w)) tid (Body r i [] # st) w' [])
               | Rejected err \<Rightarrow>
                   Some (Rejected err, w', [], tr @ Settled r i (Rejected err) # rejections err st)))",
    OF _ _ _ _ _ _ _ _ _ _ _ assms], goal_cases)
  case (1 w ev p err)
  then show ?case
    by (auto simp: go_await call_publish_lifted intro!: exI [of _ 0])
next
  case (2 w ev p el)
  then show ?case
    by (auto simp: go_await call_publish_lifted intro!: exI [of _ 0])
next
  case (3 w ev p el)
  then show ?case
    by (auto simp: go_await call_publish_lifted intro!: exI [of _ 0])
next
  case (4 n w ev p el hs out w' tr)
  let ?w2 = "(pushed w (new_entry w ev p))\<lparr>busLogEl := el\<rparr>"
  let ?reg = "lift_registry (subscribers w)"
  from 4(4) have same: "subscribers w' = subscribers w" by simp
  have "\<exists>k0. \<forall>k.
            go (k0 + k) ?reg tid (Body r i (Await ev p # ss) # st) w [] =
              (case out of
                 Fulfilled \<Rightarrow> after (Appended (new_entry w ev p) # tr) (go k ?reg tid (Body r i ss # st) w' [])
               | Rejected err \<Rightarrow>
                   Some (Rejected err, w', [],
                         (Appended (new_entry w ev p) # tr) @ Settled r i (Rejected err) # rejections err st))"
    for tid r i ss st
  proof -
    from 4(4) have "\<forall>tid st. \<exists>k0. \<forall>k.
        go (k0 + k) ?reg tid (Loop (length (log w)) 0 (map lift_handler hs) p # st) ?w2 [] =
          (case out of
             Fulfilled \<Rightarrow> after tr (go k ?reg tid st w' [])
           | Rejected err \<Rightarrow> Some (Rejected err, w', [], tr @ rejections err st))"
      by (simp cong: outcome.case_cong)
    then obtain k0 where k0: "\<And>k.
        go (k0 + k) ?reg tid (Loop (length (log w)) 0 (map lift_handler hs) p # Body r i ss # st) ?w2 [] =
          (case out of
             Fulfilled \<Rightarrow> after tr (go k ?reg tid (Body r i ss # st) w' [])
           | Rejected err \<Rightarrow> Some (Rejected err, w', [], tr @ rejections err (Body r i ss # st)))"
      by blast
    have "go (k0 + k) ?reg tid (Body r i (Await ev p # ss) # st) w [] =
              (case out of
                 Fulfilled \<Rightarrow> after (Appended (new_entry w ev p) # tr) (go k ?reg tid (Body r i ss # st) w' [])
               | Rejected err \<Rightarrow>
                   Some (Rejected err, w', [],
                         (Appended (new_entry w ev p) # tr) @ Settled r i (Rejected err) # rejections err st))"
      for k
      using 4(1,2) k0 [of k]
      by (cases out) (simp_all add: go_await call_publish_lifted)
    then show ?thesis by blast
  qed
  with same show ?case by blast
next
  case (5 w r i p)
  then show ?case by (auto intro!: exI [of _ 0])
next
  case (6 n w r i h hs p s body err w' tr)
  let ?reg = "lift_registry (subscribers w)"
  from 6(3) have same: "subscribers w' = subscribers w" by simp
  have lh6: "lift_handler h (services w) p = (s, map lift body)"
    using 6(1) by (simp add: lift_handler_def)
  have "\<exists>k0. \<forall>k.
          go (k0 + k) ?reg tid (Loop r i (map lift_handler (h # hs)) p # st) w [] =
            Some (Rejected err, w', [],
                  (Invoked r i p (length (log w)) # tr @ [Settled r i (Rejected err)]) @ rejections err st)"
    for tid st
  proof -
    from 6(3) have "\<forall>tid r i st. \<exists>k0. \<forall>k.
        go (k0 + k) ?reg tid (Body r i (map lift body) # st) (w\<lparr>services := s\<rparr>) [] =
          Some (Rejected err, w', [], tr @ Settled r i (Rejected err) # rejections err st)"
      by (simp cong: outcome.case_cong)
    then obtain k0 where k0: "\<And>k.
        go (k0 + k) ?reg tid (Body r i (map lift body) # Loop r (Suc i) (map lift_handler hs) p # st)
           (w\<lparr>services := s\<rparr>) [] =
          Some (Rejected err, w', [],
                tr @ Settled r i (Rejected err) # rejections err (Loop r (Suc i) (map lift_handler hs) p # st))"
      by blast
    have "go (Suc k0 + k) ?reg tid (Loop r i (map lift_handler (h # hs)) p # st) w [] =
            Some (Rejected err, w', [],
                  (Invoked r i p (length (log w)) # tr @ [Settled r i (Rejected err)]) @ rejections err st)"
      for k
      using go_loop_next [of "lift_handler h" w p s "map lift body", OF lh6, of "k0 + k" ?reg tid r i "map lift_handler hs" st]
        k0 [of k]
      by simp
    then show ?thesis by blast
  qed
  with same show ?case by simp
next
  case (7 n w r i h hs p s body w1 tr1 out w' tr2)
  let ?reg = "lift_registry (subscribers w)"
  from 7(3) have same1: "subscribers w1 = subscribers w" by simp
  have lh7: "lift_handler h (services w) p = (s, map lift body)"
    using 7(1) by (simp add: lift_handler_def)
  from 7(5) same1 have same: "subscribers w' = subscribers w" by simp
  have "\<exists>k0. \<forall>k.
          go (k0 + k) ?reg tid (Loop r i (map lift_handler (h # hs)) p # st) w [] =
            (case out of
               Fulfilled \<Rightarrow>
                 after (Invoked r i p (length (log w)) # tr1 @ Settled r i Fulfilled # tr2)
                   (go k ?reg tid st w' [])
             | Rejected err \<Rightarrow>
                 Some (Rejected err, w', [],
                       (Invoked r i p (length (log w)) # tr1 @ Settled r i Fulfilled # tr2) @
                       rejections err st))"
    for tid st
  proof -
    from 7(3) have "\<forall>tid r i st. \<exists>k0. \<forall>k.
        go (k0 + k) ?reg tid (Body r i (map lift body) # st) (w\<lparr>services := s\<rparr>) [] =
          after tr1 (go k ?reg tid (Body r i [] # st) w1 [])"
      by (simp cong: outcome.case_cong)
    then obtain k0 where k0: "\<And>k.
        go (k0 + k) ?reg tid (Body r i (map lift body) # Loop r (Suc i) (map lift_handler hs) p # st)
           (w\<lparr>services := s\<rparr>) [] =
          after tr1 (go k ?reg tid (Body r i [] # Loop r (Suc i) (map lift_handler hs) p # st) w1 [])"
      by blast
    from 7(5) same1 have "\<forall>tid st. \<exists>k1. \<forall>k.
        go (k1 + k) ?reg tid (Loop r (Suc i) (map lift_handler hs) p # st) w1 [] =
          (case out of
             Fulfilled \<Rightarrow> after tr2 (go k ?reg tid st w' [])
           | Rejected err \<Rightarrow> Some (Rejected err, w', [], tr2 @ rejections err st))"
      by (simp cong: outcome.case_cong)
    then obtain k1 where k1: "\<And>k.
        go (k1 + k) ?reg tid (Loop r (Suc i) (map lift_handler hs) p # st) w1 [] =
          (case out of
             Fulfilled \<Rightarrow> after tr2 (go k ?reg tid st w' [])
           | Rejected err \<Rightarrow> Some (Rejected err, w', [], tr2 @ rejections err st))"
      by blast
    have "go (Suc (k0 + k1) + k) ?reg tid (Loop r i (map lift_handler (h # hs)) p # st) w [] =
            (case out of
               Fulfilled \<Rightarrow>
                 after (Invoked r i p (length (log w)) # tr1 @ Settled r i Fulfilled # tr2)
                   (go k ?reg tid st w' [])
             | Rejected err \<Rightarrow>
                 Some (Rejected err, w', [],
                       (Invoked r i p (length (log w)) # tr1 @ Settled r i Fulfilled # tr2) @
                       rejections err st))"
      for k
      using go_loop_next [of "lift_handler h" w p s "map lift body", OF lh7, of "k0 + (k1 + k)" ?reg tid r i "map lift_handler hs" st]
        k0 [of "k1 + k"] k1 [of k]
      by (cases out) (simp_all add: add.assoc)
    then show ?thesis by blast
  qed
  with same show ?case by simp
next
  case (8 w)
  then show ?case by (auto intro!: exI [of _ 0])
next
  case (9 w err ss)
  then show ?case by (auto intro!: exI [of _ 0])
next
  case (10 n w ev p ss err w' tr)
  then show ?case by simp
next
  case (11 n w ev p ss w1 tr1 out w' tr2)
  let ?reg = "lift_registry (subscribers w)"
  from 11(2) have same1: "subscribers w1 = subscribers w" by simp
  from 11(4) same1 have same: "subscribers w' = subscribers w" by simp
  have "\<exists>k0. \<forall>k.
          go (k0 + k) ?reg tid (Body r i (map lift (AwaitPublish ev p # ss)) # st) w [] =
            (case out of
               Fulfilled \<Rightarrow> after (tr1 @ tr2) (go k ?reg tid (Body r i [] # st) w' [])
             | Rejected err \<Rightarrow>
                 Some (Rejected err, w', [], (tr1 @ tr2) @ Settled r i (Rejected err) # rejections err st))"
    for tid r i st
  proof -
    from 11(2) have "\<forall>tid r i ss st. \<exists>k0. \<forall>k.
        go (k0 + k) ?reg tid (Body r i (Await ev p # ss) # st) w [] =
          after tr1 (go k ?reg tid (Body r i ss # st) w1 [])"
      by (simp cong: outcome.case_cong)
    then obtain k0 where k0: "\<And>k.
        go (k0 + k) ?reg tid (Body r i (Await ev p # map lift ss) # st) w [] =
          after tr1 (go k ?reg tid (Body r i (map lift ss) # st) w1 [])"
      by blast
    from 11(4) same1 have "\<forall>tid r i st. \<exists>k1. \<forall>k.
        go (k1 + k) ?reg tid (Body r i (map lift ss) # st) w1 [] =
          (case out of
             Fulfilled \<Rightarrow> after tr2 (go k ?reg tid (Body r i [] # st) w' [])
           | Rejected err \<Rightarrow>
               Some (Rejected err, w', [], tr2 @ Settled r i (Rejected err) # rejections err st))"
      by (simp cong: outcome.case_cong)
    then obtain k1 where k1: "\<And>k.
        go (k1 + k) ?reg tid (Body r i (map lift ss) # st) w1 [] =
          (case out of
             Fulfilled \<Rightarrow> after tr2 (go k ?reg tid (Body r i [] # st) w' [])
           | Rejected err \<Rightarrow>
               Some (Rejected err, w', [], tr2 @ Settled r i (Rejected err) # rejections err st))"
      by blast
    have "go ((k0 + k1) + k) ?reg tid (Body r i (map lift (AwaitPublish ev p # ss)) # st) w [] =
            (case out of
               Fulfilled \<Rightarrow> after (tr1 @ tr2) (go k ?reg tid (Body r i [] # st) w' [])
             | Rejected err \<Rightarrow>
                 Some (Rejected err, w', [], (tr1 @ tr2) @ Settled r i (Rejected err) # rejections err st))"
      for k
      using k0 [of "k1 + k"] k1 [of k]
      by (cases out) (simp_all add: add.assoc)
    then show ?thesis by blast
  qed
  with same show ?case by simp
qed

lemma publish_async_go:
  "publish_async k reg w ev p =
     (case call_publish reg w ev p of
        (w1, e, Inl err) \<Rightarrow> Some (Rejected err, w1, [], [Appended e])
      | (w1, e, Inr hs) \<Rightarrow>
          after [Appended e] (go k reg (length (log w)) [Loop (length (log w)) 0 hs p] w1 []))"
  by (simp add: publish_async_def go_def after_def
           split: prod.splits sum.splits list.splits option.splits)

theorem publish_on_event_loop:
  assumes "publish n w ev p = Some (out, w', tr)"
  shows "\<exists>k0. \<forall>k. publish_async (k0 + k) (lift_registry (subscribers w)) w ev p =
                      Some (out, w', [], tr)"
proof (cases n)
  case 0
  with assms show ?thesis by simp
next
  case (Suc n')
  from assms [unfolded Suc] show ?thesis
  proof (cases rule: publish_Suc_cases)
    case (round el hs tr')
    let ?w2 = "(pushed w (new_entry w ev p))\<lparr>busLogEl := el\<rparr>"
    let ?reg = "lift_registry (subscribers w)"
    from dispatch_on_event_loop [OF round(3)]
    have "\<forall>tid st. \<exists>k0. \<forall>k.
        go (k0 + k) ?reg tid (Loop (length (log w)) 0 (map lift_handler hs) p # st) ?w2 [] =
          (case out of
             Fulfilled \<Rightarrow> after tr' (go k ?reg tid st w' [])
           | Rejected err \<Rightarrow> Some (Rejected err, w', [], tr' @ rejections err st))"
      by (simp cong: outcome.case_cong)
    from this [rule_format, of "length (log w)" "[]"]
    have "\<exists>k0. \<forall>k.
        go (k0 + k) ?reg (length (log w)) [Loop (length (log w)) 0 (map lift_handler hs) p] ?w2 [] =
          Some (out, w', [], tr')"
      by (cases out) simp_all
    then obtain k0 where k0: "\<And>k.
        go (k0 + k) ?reg (length (log w)) [Loop (length (log w)) 0 (map lift_handler hs) p] ?w2 [] =
          Some (out, w', [], tr')"
      by blast
    have "publish_async (k0 + k) ?reg w ev p = Some (out, w', [], tr)" for k
      using k0 [of k] round(1,2,4)
      by (simp add: publish_async_go call_publish_lifted)
    then show ?thesis by blast
  qed (auto simp: publish_async_go call_publish_lifted)
qed

section \<open>Evaluating the example buses\<close>

lemmas eval_defs =
  new_bus_def Let_def notifyBusLog_def read_subscribers_def Object_prototype_def
  tick_def stalled_def relay_def idle_def boom_def shop_def shop_log_def shop_trace_def brittle_def flaky_def


lemma flaky_publish:
  "publish 2 flaky ''order.placed'' (Obj ()) =
     Some (Rejected (Thrown ''boom''),
           flaky\<lparr>log := [\<lparr>event = ''order.placed'', payload = Obj (), timestamp = 0\<rparr>,
                          \<lparr>event = ''inventory.updated'', payload = Obj (), timestamp = 400\<rparr>],
                  reads := 2\<rparr>,
           [Appended \<lparr>event = ''order.placed'', payload = Obj (), timestamp = 0\<rparr>,
            Invoked 0 0 (Obj ()) 1,
            Appended \<lparr>event = ''inventory.updated'', payload = Obj (), timestamp = 400\<rparr>,
            Settled 0 0 Fulfilled,
            Invoked 0 1 (Obj ()) 2,
            Settled 0 1 (Rejected (Thrown ''boom''))])"
  by (simp add: eval_defs numeral_2_eq_2)


section \<open>The claims\<close>




text \<open>
  C2 (as amended). Entries have no \<^verbatim>\<open>sequence\<close> field. What orders them is their position in
  the log: a publish stores its entry at the index equal to the number of entries logged
  before, leaves those entries as they were, and stamps the entry with the clock reading taken
  when it was created.
\<close>

theorem publish_entry_position:
  assumes "publish n w ev p = Some (out, w', tr)"
  shows "take (length (log w)) (log w') = log w \<and>
         length (log w) < length (log w') \<and>
         log w' ! length (log w) = new_entry w ev p \<and>
         entry_get (log w' ! length (log w)) ''sequence'' = None \<and>
         entry_get (log w' ! length (log w)) ''timestamp'' = Some (FNumber (clock w (reads w)))"
proof -
  obtain rest where tr: "tr = Appended (new_entry w ev p) # rest"
    using publish_first_obs [OF assms] by blast
  have "log w' = log w @ new_entry w ev p # appended rest"
    using frame(1) [OF assms] tr by simp
  then show ?thesis by (simp add: entry_get_def)
qed

theorem publish_entry_position_witness:
  "publish 3 shop ''order.placed'' (Obj ()) =
     Some (Fulfilled, shop\<lparr>log := shop_log, reads := 5\<rparr>, shop_trace) \<and>
   take (length (log shop)) shop_log = log shop \<and>
   length (log shop) < length shop_log \<and>
   shop_log ! length (log shop) = new_entry shop ''order.placed'' (Obj ()) \<and>
   entry_get (shop_log ! length (log shop)) ''sequence'' = None \<and>
   entry_get (shop_log ! length (log shop)) ''timestamp'' = Some (FNumber (clock shop (reads shop)))"
proof -
  have run: "publish 3 shop ''order.placed'' (Obj ()) =
      Some (Fulfilled, shop\<lparr>log := shop_log, reads := 5\<rparr>, shop_trace)"
    by (simp add: eval_defs numeral_3_eq_3)
  from publish_entry_position [OF run] show ?thesis
    using run by auto
qed

text \<open>
  C2 as stated fails: two publishes within one millisecond log two equal entries, and reading
  \<^verbatim>\<open>sequence\<close> from an entry gives \<^verbatim>\<open>undefined\<close>.
\<close>

theorem entries_have_no_sequence:
  "publish 1 (new_bus None stalled ()) ''order.placed'' (Obj ()) =
     Some (Fulfilled,
           (new_bus None stalled ())\<lparr>log := [\<lparr>event = ''order.placed'', payload = Obj (), timestamp = 7\<rparr>],
                                     reads := 1\<rparr>,
           [Appended \<lparr>event = ''order.placed'', payload = Obj (), timestamp = 7\<rparr>]) \<and>
   publish 1 ((new_bus None stalled ())\<lparr>log := [\<lparr>event = ''order.placed'', payload = Obj (), timestamp = 7\<rparr>],
                                        reads := 1\<rparr>) ''order.placed'' (Obj ()) =
     Some (Fulfilled,
           (new_bus None stalled ())\<lparr>log := [\<lparr>event = ''order.placed'', payload = Obj (), timestamp = 7\<rparr>,
                                              \<lparr>event = ''order.placed'', payload = Obj (), timestamp = 7\<rparr>],
                                     reads := 2\<rparr>,
           [Appended \<lparr>event = ''order.placed'', payload = Obj (), timestamp = 7\<rparr>]) \<and>
   entry_get \<lparr>event = ''order.placed'', payload = Obj (), timestamp = 7\<rparr> ''sequence'' = None"
  by (simp add: eval_defs entry_get_def)

text \<open>
  C3. The first thing a publish does is push its entry onto the log; every handler call of
  the run, for this publish and for every nested one, happens when the log already holds the
  entry of its round.
\<close>

theorem append_precedes_handlers:
  assumes "publish n w ev p = Some (out, w', tr)"
  shows "(\<exists>rest. tr = Appended (new_entry w ev p) # rest) \<and>
         length (log w) < length (log w') \<and>
         log w' ! length (log w) = new_entry w ev p \<and>
         (\<forall>r i q m. Invoked r i q m \<in> set tr \<longrightarrow> length (log w) \<le> r \<and> r < m)"
proof -
  obtain rest where tr: "tr = Appended (new_entry w ev p) # rest"
    using publish_first_obs [OF assms] by blast
  have "log w' = log w @ new_entry w ev p # appended rest"
    using frame(1) [OF assms] tr by simp
  then have "length (log w) < length (log w')" "log w' ! length (log w) = new_entry w ev p"
    by simp_all
  moreover have "\<forall>r i q m. Invoked r i q m \<in> set tr \<longrightarrow> length (log w) \<le> r \<and> r < m"
    using rounds(1) [OF assms] invoked_after_append(1) [OF assms] by fastforce
  ultimately show ?thesis using tr by blast
qed

theorem append_precedes_handlers_witness:
  "publish 3 shop ''order.placed'' (Obj ()) =
     Some (Fulfilled, shop\<lparr>log := shop_log, reads := 5\<rparr>, shop_trace) \<and>
   (\<exists>rest. shop_trace = Appended (new_entry shop ''order.placed'' (Obj ())) # rest) \<and>
   length (log shop) < length shop_log \<and>
   shop_log ! length (log shop) = new_entry shop ''order.placed'' (Obj ()) \<and>
   Invoked 2 0 (Obj ()) 3 \<in> set shop_trace \<and> length (log shop) \<le> 2 \<and> (2::nat) < 3"
proof -
  have run: "publish 3 shop ''order.placed'' (Obj ()) =
      Some (Fulfilled, shop\<lparr>log := shop_log, reads := 5\<rparr>, shop_trace)"
    by (simp add: eval_defs numeral_3_eq_3)
  have inv: "Invoked 2 0 (Obj ()) 3 \<in> set shop_trace"
    by (simp add: shop_trace_def)
  from append_precedes_handlers [OF run] inv show ?thesis
    using run by auto
qed



text \<open>
  C5 does not hold of the code: a publish to the topic \<^verbatim>\<open>toString\<close> on a new bus rejects
  with a TypeError although no handler was called, let alone failed.
  \<open>publish_rejected_cases\<close> lists the three ways a publish rejects.
\<close>

theorem publish_rejects_without_handler_failure:
  "publish (Suc n) (new_bus el clk s) ''toString'' (Obj a) =
     Some (Rejected TypeError,
           (new_bus el clk s)
             \<lparr>log := [\<lparr>event = ''toString'', payload = Obj a, timestamp = clk 0\<rparr>],
              reads := Suc 0,
              busLogEl := map_option
                (\<lambda>items. take 20 (\<lparr>event = ''toString'', payload = Obj a, timestamp = clk 0\<rparr> # items)) el\<rparr>,
           [Appended \<lparr>event = ''toString'', payload = Obj a, timestamp = clk 0\<rparr>])"
  by (cases el)
     (simp_all add: new_bus_def Let_def notifyBusLog_def read_subscribers_def Object_prototype_def)

text \<open>
  C6 does not hold of the code: on a new bus nothing is subscribed to the topic
  \<^verbatim>\<open>constructor\<close>, and a publish to it logs one entry, calls no handler and rejects with a
  TypeError. For a topic that is not a property name of \<^verbatim>\<open>Object.prototype\<close>, and when
  \<open>notifyBusLog\<close> does not throw, the publish is fulfilled (\<open>publish_unknown_topic\<close>).
\<close>

theorem publish_unregistered_topic_rejects:
  "publish (Suc n) (new_bus el clk s) ''constructor'' (Obj a) =
     Some (Rejected TypeError,
           (new_bus el clk s)
             \<lparr>log := [\<lparr>event = ''constructor'', payload = Obj a, timestamp = clk 0\<rparr>],
              reads := Suc 0,
              busLogEl := map_option
                (\<lambda>items. take 20 (\<lparr>event = ''constructor'', payload = Obj a, timestamp = clk 0\<rparr> # items)) el\<rparr>,
           [Appended \<lparr>event = ''constructor'', payload = Obj a, timestamp = clk 0\<rparr>])"
  by (cases el)
     (simp_all add: new_bus_def Let_def notifyBusLog_def read_subscribers_def Object_prototype_def)

lemma publish_unknown_topic:
  assumes "read_subscribers (subscribers w) ev = None"
    and "notifyBusLog (busLogEl w) (new_entry w ev p) = Inr el"
  shows "publish (Suc n) w ev p =
           Some (Fulfilled, (pushed w (new_entry w ev p))\<lparr>busLogEl := el\<rparr>,
                 [Appended (new_entry w ev p)])"
  using assms by (simp add: Let_def)

lemma publish_nullish_payload:
  "publish (Suc n) (new_bus (Some []) clk s) ev Undefined =
     Some (Rejected TypeError,
           (new_bus (Some []) clk s)\<lparr>log := [\<lparr>event = ev, payload = Undefined, timestamp = clk 0\<rparr>],
                                 reads := Suc 0\<rparr>,
           [Appended \<lparr>event = ev, payload = Undefined, timestamp = clk 0\<rparr>])"
  by (simp add: new_bus_def Let_def notifyBusLog_def)

lemma subscribe_constructor: "subscribe (new_bus el clk s) ''constructor'' h = Inl TypeError"
  by (simp add: subscribe_result new_bus_def Object_prototype_def)

text \<open>
  C7. Along every sequence of subscribe and publish calls, whatever their outcomes, the log
  is the log before followed by every entry that was observed being pushed, in order: the log
  reached after a part of the calls is a prefix of the log reached after all of them, entries
  stay where they are, unchanged, and the length never decreases. A publish that rejects keeps
  everything that it and its cascade pushed before the failure.
\<close>

theorem log_append_only:
  assumes "run_calls n w (cs1 @ cs2) = Some (w', tr)"
  shows "(\<exists>w1 tr1 tr2.
            run_calls n w cs1 = Some (w1, tr1) \<and> run_calls n w1 cs2 = Some (w', tr2) \<and>
            tr = tr1 @ tr2 \<and>
            log w1 = log w @ appended tr1 \<and> log w' = log w1 @ appended tr2 \<and>
            prefix (log w1) (log w') \<and> length (log w1) \<le> length (log w') \<and>
            (\<forall>i < length (log w1). log w' ! i = log w1 ! i)) \<and>
         (\<forall>m (v :: ('a, 's) world) ev p err v' t.
            publish m v ev p = Some (Rejected err, v', t) \<longrightarrow>
            log v' = log v @ appended t \<and> prefix (log v) (log v'))"
proof -
  from assms obtain w1 tr1 tr2 where
    w1: "run_calls n w cs1 = Some (w1, tr1)" and rest: "run_calls n w1 cs2 = Some (w', tr2)"
    and tr: "tr = tr1 @ tr2"
    by (auto simp: run_calls_append split: option.splits)
  have l1: "log w1 = log w @ appended tr1" by (rule run_calls_log [OF w1])
  have l2: "log w' = log w1 @ appended tr2" by (rule run_calls_log [OF rest])
  from l2 have "prefix (log w1) (log w')" "length (log w1) \<le> length (log w')"
    "\<forall>i < length (log w1). log w' ! i = log w1 ! i"
    by (simp_all add: nth_append)
  with w1 rest tr l1 l2 have a: "\<exists>w1 tr1 tr2.
            run_calls n w cs1 = Some (w1, tr1) \<and> run_calls n w1 cs2 = Some (w', tr2) \<and>
            tr = tr1 @ tr2 \<and>
            log w1 = log w @ appended tr1 \<and> log w' = log w1 @ appended tr2 \<and>
            prefix (log w1) (log w') \<and> length (log w1) \<le> length (log w') \<and>
            (\<forall>i < length (log w1). log w' ! i = log w1 ! i)"
    by blast
  have b: "\<forall>m (v :: ('a, 's) world) ev p err v' t.
            publish m v ev p = Some (Rejected err, v', t) \<longrightarrow>
            log v' = log v @ appended t \<and> prefix (log v) (log v')"
    using frame(1) by fastforce
  from a b show ?thesis by (intro conjI)
qed

theorem log_append_only_witness:
  "run_calls 2 flaky ([Publish ''order.placed'' (Obj ())] @ [Publish ''menu.changed'' Null]) =
     Some (flaky\<lparr>log := [\<lparr>event = ''order.placed'', payload = Obj (), timestamp = 0\<rparr>,
                          \<lparr>event = ''inventory.updated'', payload = Obj (), timestamp = 400\<rparr>,
                          \<lparr>event = ''menu.changed'', payload = Null, timestamp = 800\<rparr>],
                  reads := 3\<rparr>,
           [Appended \<lparr>event = ''order.placed'', payload = Obj (), timestamp = 0\<rparr>,
            Invoked 0 0 (Obj ()) 1,
            Appended \<lparr>event = ''inventory.updated'', payload = Obj (), timestamp = 400\<rparr>,
            Settled 0 0 Fulfilled,
            Invoked 0 1 (Obj ()) 2,
            Settled 0 1 (Rejected (Thrown ''boom'')),
            Appended \<lparr>event = ''menu.changed'', payload = Null, timestamp = 800\<rparr>]) \<and>
   (\<exists>w1 tr1 tr2.
      run_calls 2 flaky [Publish ''order.placed'' (Obj ())] = Some (w1, tr1) \<and>
      run_calls 2 w1 [Publish ''menu.changed'' Null] =
        Some (flaky\<lparr>log := [\<lparr>event = ''order.placed'', payload = Obj (), timestamp = 0\<rparr>,
                          \<lparr>event = ''inventory.updated'', payload = Obj (), timestamp = 400\<rparr>,
                          \<lparr>event = ''menu.changed'', payload = Null, timestamp = 800\<rparr>],
                  reads := 3\<rparr>, tr2) \<and>
      log w1 = log flaky @ appended tr1 \<and>
      prefix (log w1)
        [\<lparr>event = ''order.placed'', payload = Obj (), timestamp = 0\<rparr>,
         \<lparr>event = ''inventory.updated'', payload = Obj (), timestamp = 400\<rparr>,
         \<lparr>event = ''menu.changed'', payload = Null, timestamp = 800\<rparr>]) \<and>
   publish 2 flaky ''order.placed'' (Obj ()) =
     Some (Rejected (Thrown ''boom''),
           flaky\<lparr>log := [\<lparr>event = ''order.placed'', payload = Obj (), timestamp = 0\<rparr>,
                          \<lparr>event = ''inventory.updated'', payload = Obj (), timestamp = 400\<rparr>],
                  reads := 2\<rparr>,
           [Appended \<lparr>event = ''order.placed'', payload = Obj (), timestamp = 0\<rparr>,
            Invoked 0 0 (Obj ()) 1,
            Appended \<lparr>event = ''inventory.updated'', payload = Obj (), timestamp = 400\<rparr>,
            Settled 0 0 Fulfilled,
            Invoked 0 1 (Obj ()) 2,
            Settled 0 1 (Rejected (Thrown ''boom''))]) \<and>
   log (flaky\<lparr>log := [\<lparr>event = ''order.placed'', payload = Obj (), timestamp = 0\<rparr>,
                          \<lparr>event = ''inventory.updated'', payload = Obj (), timestamp = 400\<rparr>],
                  reads := 2\<rparr>) =
     log flaky @
     [\<lparr>event = ''order.placed'', payload = Obj (), timestamp = 0\<rparr>,
      \<lparr>event = ''inventory.updated'', payload = Obj (), timestamp = 400\<rparr>]"
proof -
  have all: "run_calls 2 flaky ([Publish ''order.placed'' (Obj ())] @ [Publish ''menu.changed'' Null]) =
     Some (flaky\<lparr>log := [\<lparr>event = ''order.placed'', payload = Obj (), timestamp = 0\<rparr>,
                          \<lparr>event = ''inventory.updated'', payload = Obj (), timestamp = 400\<rparr>,
                          \<lparr>event = ''menu.changed'', payload = Null, timestamp = 800\<rparr>],
                  reads := 3\<rparr>,
           [Appended \<lparr>event = ''order.placed'', payload = Obj (), timestamp = 0\<rparr>,
            Invoked 0 0 (Obj ()) 1,
            Appended \<lparr>event = ''inventory.updated'', payload = Obj (), timestamp = 400\<rparr>,
            Settled 0 0 Fulfilled,
            Invoked 0 1 (Obj ()) 2,
            Settled 0 1 (Rejected (Thrown ''boom'')),
            Appended \<lparr>event = ''menu.changed'', payload = Null, timestamp = 800\<rparr>])"
    by (simp add: eval_defs numeral_2_eq_2)
  note inst = log_append_only [OF all]
  from inst have a: "\<exists>w1 tr1 tr2.
      run_calls 2 flaky [Publish ''order.placed'' (Obj ())] = Some (w1, tr1) \<and>
      run_calls 2 w1 [Publish ''menu.changed'' Null] =
        Some (flaky\<lparr>log := [\<lparr>event = ''order.placed'', payload = Obj (), timestamp = 0\<rparr>,
                          \<lparr>event = ''inventory.updated'', payload = Obj (), timestamp = 400\<rparr>,
                          \<lparr>event = ''menu.changed'', payload = Null, timestamp = 800\<rparr>],
                  reads := 3\<rparr>, tr2) \<and>
      log w1 = log flaky @ appended tr1 \<and>
      prefix (log w1)
        [\<lparr>event = ''order.placed'', payload = Obj (), timestamp = 0\<rparr>,
         \<lparr>event = ''inventory.updated'', payload = Obj (), timestamp = 400\<rparr>,
         \<lparr>event = ''menu.changed'', payload = Null, timestamp = 800\<rparr>]"
    by auto
  from inst flaky_publish
  have b: "log (flaky\<lparr>log := [\<lparr>event = ''order.placed'', payload = Obj (), timestamp = 0\<rparr>,
                          \<lparr>event = ''inventory.updated'', payload = Obj (), timestamp = 400\<rparr>],
                  reads := 2\<rparr>) =
     log flaky @
     [\<lparr>event = ''order.placed'', payload = Obj (), timestamp = 0\<rparr>,
      \<lparr>event = ''inventory.updated'', payload = Obj (), timestamp = 400\<rparr>]"
    by fastforce
  from all a flaky_publish b show ?thesis by (intro conjI)
qed

text \<open>
  C8 (as amended). A subscribe call that does not throw returns \<^verbatim>\<open>undefined\<close>, and it
  leaves every registration that existed in place, in order.
\<close>

theorem subscribe_returns_undefined:
  assumes "subscribe w ev h = Inr (ret, w')"
  shows "ret = Undefined \<and>
         (\<forall>t hs. subscribers w t = Some hs \<longrightarrow> (\<exists>hs'. subscribers w' t = Some (hs @ hs')))"
  using assms
  by (auto simp: subscribe_result split: option.splits if_splits)

theorem subscribe_returns_undefined_witness:
  "subscribe shop ''loyalty.updated'' idle =
     Inr (Undefined, shop\<lparr>subscribers := (subscribers shop)
            (''loyalty.updated'' \<mapsto> [relay ''notification.sent'', idle])\<rparr>) \<and>
   (\<exists>hs'. subscribers (shop\<lparr>subscribers := (subscribers shop)
            (''loyalty.updated'' \<mapsto> [relay ''notification.sent'', idle])\<rparr>) ''loyalty.updated'' =
      Some ([relay ''notification.sent''] @ hs'))"
proof -
  have call: "subscribe shop ''loyalty.updated'' idle =
     Inr (Undefined, shop\<lparr>subscribers := (subscribers shop)
            (''loyalty.updated'' \<mapsto> [relay ''notification.sent'', idle])\<rparr>)"
    by (simp add: subscribe_result eval_defs)
  have "subscribers shop ''loyalty.updated'' = Some [relay ''notification.sent'']"
    by (simp add: eval_defs)
  with subscribe_returns_undefined [OF call] call show ?thesis by blast
qed

text \<open>
  C8 as stated fails: the value of a subscribe call is \<^verbatim>\<open>undefined\<close>, not a handle.
\<close>

theorem subscribe_gives_no_handle:
  "subscribe (new_bus None tick ()) ''order.placed'' idle =
     Inr (Undefined, (new_bus None tick ())\<lparr>subscribers := [''order.placed'' \<mapsto> [idle]]\<rparr>)"
  by (simp add: subscribe_result eval_defs)

text \<open>
  C9 (as amended). For a topic that does not read as a property inherited from
  \<^verbatim>\<open>Object.prototype\<close>, subscribe appends the handler to the end of the topic's list, which
  it creates when absent. In a round that is fulfilled every registration is called exactly
  once, in order, with the payload of the publish; so a handler registered \<open>k\<close> times is
  called \<open>k\<close> times.
\<close>

theorem subscribe_appends_round_invocations:
  "(read_subscribers (subscribers w) ev \<noteq> Some Builtin \<longrightarrow>
      subscribe w ev h =
        Inr (Undefined,
             w\<lparr>subscribers := (subscribers w)
                  (ev \<mapsto> (case subscribers w ev of None \<Rightarrow> [] | Some hs \<Rightarrow> hs) @ [h])\<rparr>)) \<and>
   (publish n w ev p = Some (Fulfilled, w', tr) \<and> subscribers w ev = Some hs \<longrightarrow>
      invocations (length (log w)) tr = map (\<lambda>j. (j, p)) [0 ..< length hs] \<and>
      (\<forall>k g. hs = replicate k g \<longrightarrow> length (invocations (length (log w)) tr) = k))"
proof -
  have "subscribe w ev h =
        Inr (Undefined,
             w\<lparr>subscribers := (subscribers w)
                  (ev \<mapsto> (case subscribers w ev of None \<Rightarrow> [] | Some hs \<Rightarrow> hs) @ [h])\<rparr>)"
    if "read_subscribers (subscribers w) ev \<noteq> Some Builtin"
    using that by (simp add: subscribe_result read_subscribers_def split: option.splits if_splits)
  moreover have "invocations (length (log w)) tr = map (\<lambda>j. (j, p)) [0 ..< length hs] \<and>
      (\<forall>k g. hs = replicate k g \<longrightarrow> length (invocations (length (log w)) tr) = k)"
    if "publish n w ev p = Some (Fulfilled, w', tr)" "subscribers w ev = Some hs"
    using publish_invocations [OF that] by simp
  ultimately show ?thesis by blast
qed

theorem subscribe_appends_round_invocations_witness:
  "read_subscribers (subscribers shop) ''loyalty.updated'' \<noteq> Some Builtin \<and>
   subscribe shop ''loyalty.updated'' idle =
     Inr (Undefined, shop\<lparr>subscribers := (subscribers shop)
            (''loyalty.updated'' \<mapsto> [relay ''notification.sent'', idle])\<rparr>) \<and>
   publish 3 shop ''order.placed'' (Obj ()) =
     Some (Fulfilled, shop\<lparr>log := shop_log, reads := 5\<rparr>, shop_trace) \<and>
   subscribers shop ''order.placed'' =
     Some [relay ''inventory.updated'', relay ''loyalty.updated'', relay ''notification.sent''] \<and>
   invocations (length (log shop)) shop_trace = [(0, Obj ()), (1, Obj ()), (2, Obj ())]"
proof -
  have ok: "read_subscribers (subscribers shop) ''loyalty.updated'' \<noteq> Some Builtin"
    by (simp add: eval_defs)
  have run: "publish 3 shop ''order.placed'' (Obj ()) =
      Some (Fulfilled, shop\<lparr>log := shop_log, reads := 5\<rparr>, shop_trace)"
    by (simp add: eval_defs numeral_3_eq_3)
  have own: "subscribers shop ''order.placed'' =
      Some [relay ''inventory.updated'', relay ''loyalty.updated'', relay ''notification.sent'']"
    by (simp add: shop_def)
  note inst = subscribe_appends_round_invocations [where w = shop and ev = "''loyalty.updated''" and h = idle]
  note inst2 = subscribe_appends_round_invocations [where w = shop and ev = "''order.placed''" and n = 3 and p = "Obj ()"
      and w' = "shop\<lparr>log := shop_log, reads := 5\<rparr>" and tr = shop_trace
      and hs = "[relay ''inventory.updated'', relay ''loyalty.updated'', relay ''notification.sent'']"]
  from inst ok have "subscribe shop ''loyalty.updated'' idle =
     Inr (Undefined, shop\<lparr>subscribers := (subscribers shop)
            (''loyalty.updated'' \<mapsto> [relay ''notification.sent'', idle])\<rparr>)"
    by (simp add: eval_defs)
  moreover from inst2 run own
  have "invocations (length (log shop)) shop_trace = [(0, Obj ()), (1, Obj ()), (2, Obj ())]"
    by (simp add: upt_rec)
  ultimately show ?thesis using ok run own by blast
qed

text \<open>
  C9 as stated fails: a handler that throws, registered twice for a topic, is called once in
  a round.
\<close>

theorem failing_handler_invoked_once:
  "subscribe (new_bus None tick ()) ''order.placed'' boom =
     Inr (Undefined, (new_bus None tick ())\<lparr>subscribers := [''order.placed'' \<mapsto> [boom]]\<rparr>) \<and>
   subscribe ((new_bus None tick ())\<lparr>subscribers := [''order.placed'' \<mapsto> [boom]]\<rparr>) ''order.placed'' boom =
     Inr (Undefined, (new_bus None tick ())\<lparr>subscribers := [''order.placed'' \<mapsto> [boom, boom]]\<rparr>) \<and>
   publish 1 ((new_bus None tick ())\<lparr>subscribers := [''order.placed'' \<mapsto> [boom, boom]]\<rparr>)
       ''order.placed'' (Obj ()) =
     Some (Rejected (Thrown ''boom''),
           (new_bus None tick ())\<lparr>subscribers := [''order.placed'' \<mapsto> [boom, boom]],
              log := [\<lparr>event = ''order.placed'', payload = Obj (), timestamp = 0\<rparr>], reads := 1\<rparr>,
           [Appended \<lparr>event = ''order.placed'', payload = Obj (), timestamp = 0\<rparr>,
            Invoked 0 0 (Obj ()) 1, Settled 0 0 (Rejected (Thrown ''boom''))]) \<and>
   invocations 0 [Appended \<lparr>event = ''order.placed'', payload = Obj (), timestamp = 0\<rparr>,
            Invoked 0 0 (Obj ()) 1, Settled 0 0 (Rejected (Thrown ''boom''))] = [(0, Obj ())]"
  by (simp add: subscribe_result eval_defs)

text \<open>
  C10. A publish leaves the registry as it was, and a subscribe leaves the log as it was.
\<close>

theorem publish_subscribe_frame:
  "(publish n w ev p = Some (out, w1, tr) \<longrightarrow> subscribers w1 = subscribers w) \<and>
   (subscribe w ev' h = Inr (ret, w2) \<longrightarrow> log w2 = log w)"
  using frame(1) [of n w ev p out w1 tr] subscribe_log [of w ev' h ret w2] by blast

theorem publish_subscribe_frame_witness:
  "publish 3 shop ''order.placed'' (Obj ()) =
     Some (Fulfilled, shop\<lparr>log := shop_log, reads := 5\<rparr>, shop_trace) \<and>
   subscribers (shop\<lparr>log := shop_log, reads := 5\<rparr>) = subscribers shop \<and>
   subscribe shop ''loyalty.updated'' idle =
     Inr (Undefined, shop\<lparr>subscribers := (subscribers shop)
            (''loyalty.updated'' \<mapsto> [relay ''notification.sent'', idle])\<rparr>) \<and>
   log (shop\<lparr>subscribers := (subscribers shop)
            (''loyalty.updated'' \<mapsto> [relay ''notification.sent'', idle])\<rparr>) = log shop"
proof -
  have run: "publish 3 shop ''order.placed'' (Obj ()) =
      Some (Fulfilled, shop\<lparr>log := shop_log, reads := 5\<rparr>, shop_trace)"
    by (simp add: eval_defs numeral_3_eq_3)
  have call: "subscribe shop ''loyalty.updated'' idle =
     Inr (Undefined, shop\<lparr>subscribers := (subscribers shop)
            (''loyalty.updated'' \<mapsto> [relay ''notification.sent'', idle])\<rparr>)"
    by (simp add: subscribe_result eval_defs)
  from publish_subscribe_frame [of 3 shop "''order.placed''" "Obj ()" Fulfilled "shop\<lparr>log := shop_log, reads := 5\<rparr>"
      shop_trace "''loyalty.updated''" idle Undefined
      "shop\<lparr>subscribers := (subscribers shop)
            (''loyalty.updated'' \<mapsto> [relay ''notification.sent'', idle])\<rparr>"] run call
  show ?thesis by blast
qed

end
